theory Spec2Isabelle
  imports Main "HOL-Library.AList"
begin

section \<open>The data table of \<^verbatim>\<open>textual/widgets/_datatable.py\<close>\<close>

text \<open>
  The widget keeps a list of columns, a dictionary from row keys to rows, a row counter
  and a bounded cache of rendered cells. Rendering is a method of the widget that reads
  the model and writes the cache. The embedding passes the whole widget state through
  every method, and an exception of the Python is a value \<open>Inl e\<close> returned together with
  the state reached when it was raised (a Python exception does not undo the writes made
  before it).
\<close>

subsection \<open>Styled text\<close>

text \<open>
  A cell value and a column label are plain text. Every character occupies one terminal
  cell, so the cell length of a text is its length.
\<close>

type_synonym cell = string

text \<open>
  Modelled from the spec: the style values of the host (\<^verbatim>\<open>rich.style.Style\<close> is not part
  of the repository). A style is a set of optional attributes, the null style sets none,
  and \<open>a + b\<close> takes every attribute that \<open>b\<close> sets from \<open>b\<close> and the others from \<open>a\<close>.
\<close>

datatype style = Style (st_color: "string option") (st_bgcolor: "string option") (st_bold: "bool option")

definition style_null :: "style \<Rightarrow> bool" where
  "style_null s = (s = Style None None None)"

definition or_else :: "'a option \<Rightarrow> 'a option \<Rightarrow> 'a option" where
  "or_else a b = (case a of Some x \<Rightarrow> Some x | None \<Rightarrow> b)"

definition style_add :: "style \<Rightarrow> style \<Rightarrow> style" where
  "style_add a b =
     (if style_null b then a
      else if style_null a then b
      else Style (or_else (st_color b) (st_color a))
                 (or_else (st_bgcolor b) (st_bgcolor a))
                 (or_else (st_bold b) (st_bold a)))"

text \<open>A segment is a run of characters sharing one style; the style may be absent.\<close>

datatype segment = Segment (seg_text: string) (seg_style: "style option")

type_synonym lines = "segment list list"

definition cell_length :: "segment \<Rightarrow> nat" where
  "cell_length s = length (seg_text s)"

definition line_length :: "segment list \<Rightarrow> nat" where
  "line_length line = sum_list (map cell_length line)"

text \<open>
  The styled characters of a line, one pair per terminal cell: two lines paint the same
  cells exactly when these lists are equal.
\<close>

definition styled_cells :: "segment list \<Rightarrow> (char \<times> style option) list" where
  "styled_cells line = concat (map (\<lambda>s. map (\<lambda>c. (c, seg_style s)) (seg_text s)) line)"

text \<open>
  Modelled from the spec: \<^verbatim>\<open>apply_style(segments, style) -> segments\<close>
  (\<^verbatim>\<open>rich.segment.Segment.apply_style\<close>, not part of the repository). A null style leaves the
  segments as they are; any other style is put under the style of every segment, so an
  attribute the segment already sets stays.
\<close>

definition apply_style :: "segment list \<Rightarrow> style \<Rightarrow> segment list" where
  "apply_style segments st =
     (if style_null st then segments
      else map (\<lambda>s. Segment (seg_text s)
                  (Some (case seg_style s of None \<Rightarrow> st | Some own \<Rightarrow> style_add st own)))
               segments)"

text \<open>
  Modelled from the spec: \<^verbatim>\<open>pad_or_truncate_line(segments, width) -> segments\<close>
  (\<^verbatim>\<open>rich.segment.Segment.adjust_line_length\<close>, not part of the repository): pad with a
  segment of spaces of default style if the line is short, truncate it if it is long.
  The truncating loop keeps whole segments while they end before the target and cuts the
  first segment that reaches it.
\<close>

definition set_cell_size :: "string \<Rightarrow> nat \<Rightarrow> string" where
  "set_cell_size txt n = take n txt @ replicate (n - length txt) CHR '' ''"

fun truncate_line :: "segment list \<Rightarrow> nat \<Rightarrow> nat \<Rightarrow> segment list" where
  "truncate_line [] done_length target = []"
| "truncate_line (s # rest) done_length target =
     (if done_length + cell_length s < target
      then s # truncate_line rest (done_length + cell_length s) target
      else [Segment (set_cell_size (seg_text s) (target - done_length)) (seg_style s)])"

definition adjust_line_length :: "segment list \<Rightarrow> nat \<Rightarrow> segment list" where
  "adjust_line_length line target =
     (if line_length line < target
      then line @ [Segment (replicate (target - line_length line) CHR '' '') None]
      else if line_length line > target then truncate_line line 0 target
      else line)"

text \<open>
  Modelled from the spec: \<^verbatim>\<open>crop_line(segments, start, end, total_width) -> segments\<close>
  (\<^verbatim>\<open>textual._segment_tools.line_crop\<close>, whose file is not among the sources): clip a
  styled line to the cells \<open>[start, end)\<close> of its horizontal extent, splitting segments at
  the boundaries and never dropping the visible part of a split segment. A start before
  the line begins at cell 0, and \<open>end \<le> start\<close> leaves nothing.
\<close>

fun drop_cells :: "nat \<Rightarrow> segment list \<Rightarrow> segment list" where
  "drop_cells n [] = []"
| "drop_cells n (s # rest) =
     (if cell_length s \<le> n then drop_cells (n - cell_length s) rest
      else Segment (drop n (seg_text s)) (seg_style s) # rest)"

fun take_cells :: "nat \<Rightarrow> segment list \<Rightarrow> segment list" where
  "take_cells n [] = []"
| "take_cells n (s # rest) =
     (if n = 0 then []
      else if cell_length s \<le> n then s # take_cells (n - cell_length s) rest
      else [Segment (take n (seg_text s)) (seg_style s)])"

definition line_crop :: "segment list \<Rightarrow> int \<Rightarrow> int \<Rightarrow> nat \<Rightarrow> segment list" where
  "line_crop segments start_cell end_cell total_width =
     take_cells (nat (end_cell - max start_cell 0)) (drop_cells (nat start_cell) segments)"

text \<open>
  Modelled from the spec: \<^verbatim>\<open>render_cell_into(content, width, height=1) -> styled_lines\<close>
  (the call \<^verbatim>\<open>console.render_lines(Padding(cell, (0, 1)), options.update_dimensions(width, 1))\<close>
  of the host console): one line of styled content whose width is the column's width,
  the content clipped or padded, with one blank cell of padding on each side. A width
  below zero counts as zero.
\<close>

definition console_render_lines :: "cell \<Rightarrow> int \<Rightarrow> lines" where
  "console_render_lines content w =
     [[Segment (take (nat w) (CHR '' '' # set_cell_size content (nat w - 2) @ '' '')) None]]"

subsection \<open>Python lists and dictionaries\<close>

datatype error = IndexError | KeyError

text \<open>\<^verbatim>\<open>xs[i]\<close> for an index that is never negative.\<close>

definition list_get :: "'a list \<Rightarrow> nat \<Rightarrow> error + 'a" where
  "list_get xs i = (if i < length xs then Inr (xs ! i) else Inl IndexError)"

text \<open>\<^verbatim>\<open>xs[:n]\<close> and \<^verbatim>\<open>xs[n:]\<close>: a negative bound counts from the end of the list.\<close>

definition slice_to :: "'a list \<Rightarrow> int \<Rightarrow> 'a list" where
  "slice_to xs n = (if 0 \<le> n then take (nat n) xs else take (length xs - nat (- n)) xs)"

definition slice_from :: "'a list \<Rightarrow> int \<Rightarrow> 'a list" where
  "slice_from xs n = (if 0 \<le> n then drop (nat n) xs else drop (length xs - nat (- n)) xs)"

text \<open>\<^verbatim>\<open>range(a, b)\<close>, empty when \<open>b \<le> a\<close>.\<close>

definition range :: "int \<Rightarrow> int \<Rightarrow> int list" where
  "range a b = [a..b - 1]"

subsection \<open>The cell render cache\<close>

text \<open>
  Modelled from the spec: the bounded cache \<^verbatim>\<open>LRUCache(10000)\<close> (\<^verbatim>\<open>textual._lru_cache\<close>,
  whose file is not among the sources): least-recently-used eviction at a fixed
  capacity; a write is never rejected, a membership test has no effect, and reading or
  writing a key makes it the most recently used. The entries are kept most recently used
  first.
\<close>

type_synonym cell_key = "int \<times> nat"

type_synonym lru_cache = "(cell_key \<times> lines) list"

definition maxsize :: nat where
  "maxsize = 10000"

definition lru_contains :: "lru_cache \<Rightarrow> cell_key \<Rightarrow> bool" where
  "lru_contains cache k = (map_of cache k \<noteq> None)"

definition lru_setitem :: "lru_cache \<Rightarrow> cell_key \<Rightarrow> lines \<Rightarrow> lru_cache" where
  "lru_setitem cache k v = take maxsize ((k, v) # AList.delete k cache)"

definition lru_getitem :: "lru_cache \<Rightarrow> cell_key \<Rightarrow> (error + lines) \<times> lru_cache" where
  "lru_getitem cache k =
     (case map_of cache k of
        None \<Rightarrow> (Inl KeyError, cache)
      | Some v \<Rightarrow> (Inr v, (k, v) # AList.delete k cache))"

subsection \<open>The table model\<close>

record column =
  label :: cell
  width :: int
  visible :: bool
  index :: nat

text \<open>
  The widget. \<open>data\<close> is the Python dictionary in insertion order. The last four fields
  are what the widget reads from its host: the scroll offset, the width of the content
  region, the style of the \<^verbatim>\<open>Header\<close> child and the style made from \<^verbatim>\<open>self.colors\<close>.
\<close>

record table =
  columns :: "column list"
  data :: "(int \<times> cell list) list"
  row_count :: int
  cell_render_cache :: lru_cache
  show_header :: bool
  fixed_rows :: int
  fixed_columns :: int
  virtual_size :: "int \<times> int"
  scroll_offset :: "int \<times> int"
  content_region_width :: nat
  header_style :: style
  colors_style :: style

text \<open>\<^verbatim>\<open>DataTable.__init__\<close> with the defaults of the reactive attributes.\<close>

definition init :: "int \<times> int \<Rightarrow> nat \<Rightarrow> style \<Rightarrow> style \<Rightarrow> table" where
  "init offset region_width hstyle cstyle =
     \<lparr>columns = [], data = [], row_count = 0, cell_render_cache = [],
      show_header = True, fixed_rows = 1, fixed_columns = 1, virtual_size = (0, 0),
      scroll_offset = offset, content_region_width = region_width,
      header_style = hstyle, colors_style = cstyle\<rparr>"

text \<open>\<^verbatim>\<open>_update_dimensions\<close>: \<^verbatim>\<open>self.show_header\<close> is a bool added to an int.\<close>

definition update_dimensions :: "table \<Rightarrow> table" where
  "update_dimensions t =
     (let max_width = sum_list (map width (columns t))
      in t\<lparr>virtual_size :=
             (max_width, int (length (data t)) + (if show_header t then 1 else 0))\<rparr>)"

text \<open>\<^verbatim>\<open>add_column\<close>; \<^verbatim>\<open>refresh\<close> asks the host for a repaint and changes nothing here.\<close>

definition add_column :: "table \<Rightarrow> cell \<Rightarrow> int \<Rightarrow> table" where
  "add_column t text_label w =
     update_dimensions
       (t\<lparr>columns := columns t @
            [\<lparr>label = text_label, width = w, visible = False, index = length (columns t)\<rparr>]\<rparr>)"

text \<open>\<^verbatim>\<open>add_row\<close>: a dictionary assignment, then the counter, then the dimensions.\<close>

definition add_row :: "table \<Rightarrow> cell list \<Rightarrow> table" where
  "add_row t cells =
     update_dimensions
       (t\<lparr>data := AList.update (row_count t) cells (data t),
          row_count := row_count t + 1\<rparr>)"

text \<open>
  \<^verbatim>\<open>get_row\<close>. Python reads \<^verbatim>\<open>y - 1 if self.show_header else 0\<close> as
  \<^verbatim>\<open>(y - 1) if self.show_header else 0\<close>.
\<close>

definition get_row :: "table \<Rightarrow> int \<Rightarrow> cell list" where
  "get_row t y =
     (if y = 0 \<and> show_header t then map label (columns t)
      else
        let data_offset = (if show_header t then y - 1 else 0)
        in case map_of (data t) data_offset of
             None \<Rightarrow> map (\<lambda>column. []) (columns t)
           | Some row \<Rightarrow> row)"

subsection \<open>Rendering\<close>

text \<open>\<^verbatim>\<open>self._cell_render_cache[cell_key]\<close> as a read of the widget.\<close>

definition cache_read :: "table \<Rightarrow> cell_key \<Rightarrow> (error + lines) \<times> table" where
  "cache_read t k =
     (case lru_getitem (cell_render_cache t) k of
        (r, cache') \<Rightarrow> (r, t\<lparr>cell_render_cache := cache'\<rparr>))"

text \<open>\<^verbatim>\<open>_render_cell\<close>.\<close>

definition render_cell :: "table \<Rightarrow> int \<Rightarrow> column \<Rightarrow> (error + lines) \<times> table" where
  "render_cell t y col =
     (let cell_key = (y, index col)
      in if \<not> lru_contains (cell_render_cache t) cell_key
         then (case list_get (get_row t y) (index col) of
                 Inl e \<Rightarrow> (Inl e, t)
               | Inr content \<Rightarrow>
                   let rendered = console_render_lines content (width col)
                   in cache_read
                        (t\<lparr>cell_render_cache :=
                             lru_setitem (cell_render_cache t) cell_key rendered\<rparr>)
                        cell_key)
         else cache_read t cell_key)"

text \<open>
  The first loop of \<^verbatim>\<open>_render_line\<close>: every column in order, \<^verbatim>\<open>lines[0]\<close> of each rendered
  cell appended to \<^verbatim>\<open>cell_segments\<close>. (\<^verbatim>\<open>rendered_width\<close> is summed there and never read.)
\<close>

fun render_cells ::
  "table \<Rightarrow> int \<Rightarrow> column list \<Rightarrow> segment list list \<Rightarrow> (error + segment list list) \<times> table"
where
  "render_cells t y [] cell_segments = (Inr cell_segments, t)"
| "render_cells t y (col # rest) cell_segments =
     (case render_cell t y col of
        (Inl e, t') \<Rightarrow> (Inl e, t')
      | (Inr rendered, t') \<Rightarrow>
          (case list_get rendered 0 of
             Inl e \<Rightarrow> (Inl e, t')
           | Inr first_line \<Rightarrow> render_cells t' y rest (cell_segments @ [first_line])))"

text \<open>The rest of \<^verbatim>\<open>_render_line\<close>, from the rendered cells to the composed line.\<close>

definition compose_line :: "table \<Rightarrow> int \<Rightarrow> int \<Rightarrow> int \<Rightarrow> segment list list \<Rightarrow> segment list" where
  "compose_line t y x1 x2 cell_segments =
     (let w = content_region_width t;
          fixed = concat (slice_to cell_segments (fixed_columns t));
          fixed_width = sum_list (map width (slice_to (columns t) (fixed_columns t)));
          fixed = apply_style fixed (header_style t);
          line = concat cell_segments;
          segments = fixed @ line_crop line (x1 + fixed_width) x2 w;
          line = adjust_line_length segments w
      in if y = 0 \<and> show_header t then apply_style line (header_style t) else line)"

definition render_line :: "table \<Rightarrow> int \<Rightarrow> int \<Rightarrow> int \<Rightarrow> (error + segment list) \<times> table" where
  "render_line t y x1 x2 =
     (case render_cells t y (columns t) [] of
        (Inl e, t') \<Rightarrow> (Inl e, t')
      | (Inr cell_segments, t') \<Rightarrow> (Inr (compose_line t' y x1 x2 cell_segments), t'))"

text \<open>A list comprehension \<^verbatim>\<open>[list(self._render_line(y, x1, x2)) for y in ys]\<close>.\<close>

fun render_rows :: "table \<Rightarrow> int list \<Rightarrow> int \<Rightarrow> int \<Rightarrow> (error + lines) \<times> table" where
  "render_rows t [] x1 x2 = (Inr [], t)"
| "render_rows t (y # ys) x1 x2 =
     (case render_line t y x1 x2 of
        (Inl e, t') \<Rightarrow> (Inl e, t')
      | (Inr line, t') \<Rightarrow>
          (case render_rows t' ys x1 x2 of
             (Inl e, t'') \<Rightarrow> (Inl e, t'')
           | (Inr rest, t'') \<Rightarrow> (Inr (line # rest), t'')))"

text \<open>\<^verbatim>\<open>render_lines\<close>.\<close>

definition render_lines :: "table \<Rightarrow> int \<times> int \<Rightarrow> int \<times> int \<Rightarrow> (error + lines) \<times> table" where
  "render_lines t line_range column_range =
     (let (scroll_x, scroll_y) = scroll_offset t;
          (y1, y2) = line_range;
          y1 = y1 + scroll_y;
          y2 = y2 + scroll_y;
          (x1, x2) = column_range;
          x1 = x1 + scroll_x;
          x2 = x2 + scroll_x
      in case render_rows t (range 0 (fixed_rows t)) x1 x2 of
           (Inl e, t1) \<Rightarrow> (Inl e, t1)
         | (Inr fixed_lines, t1) \<Rightarrow>
             (case render_rows t1 (range y1 y2) x1 x2 of
                (Inl e, t2) \<Rightarrow> (Inl e, t2)
              | (Inr scrolled, t2) \<Rightarrow>
                  let stitched = (if fixed_lines \<noteq> []
                                  then fixed_lines @ slice_from scrolled (fixed_rows t2)
                                  else scrolled)
                  in (Inr (map (\<lambda>line. apply_style line (colors_style t2)) stitched), t2)))"

subsection \<open>Tables built through the public operations\<close>

text \<open>
  The tables that \<^verbatim>\<open>__init__\<close>, \<^verbatim>\<open>add_column\<close> and \<^verbatim>\<open>add_row\<close> can build, with the
  reactive attribute \<^verbatim>\<open>show_header\<close> set to either value at any moment.
\<close>

inductive built :: "table \<Rightarrow> bool" where
  built_init: "built (init offset region_width hstyle cstyle)"
| built_add_column: "built t \<Longrightarrow> built (add_column t text_label w)"
| built_add_row: "built t \<Longrightarrow> built (add_row t cells)"
| built_show_header: "built t \<Longrightarrow> built (t\<lparr>show_header := b\<rparr>)"

subsection \<open>States of the table\<close>

text \<open>The table without its cache: what the rendering must leave as it is.\<close>

definition model :: "table \<Rightarrow> table" where
  "model t = t\<lparr>cell_render_cache := []\<rparr>"

text \<open>\<^verbatim>\<open>add_column\<close> gives every column its position in the list as index.\<close>

definition columns_indexed :: "table \<Rightarrow> bool" where
  "columns_indexed t = (map index (columns t) = [0..<length (columns t)])"

text \<open>
  A warm cache with no model mutation since it was filled: every entry of a column of the
  table is what \<^verbatim>\<open>_render_cell\<close> computes from the table as it is now.
\<close>

definition cache_coherent :: "table \<Rightarrow> bool" where
  "cache_coherent t =
     (\<forall>((y, i), v) \<in> set (cell_render_cache t).
        i < length (columns t) \<longrightarrow>
          i < length (get_row t y)
          \<and> v = console_render_lines (get_row t y ! i) (width (columns t ! i)))"

text \<open>
  A valid table state: column indices lie within the column list, every stored row has a
  value for every column, and no cached cell is an empty list of lines.
\<close>

definition table_valid :: "table \<Rightarrow> bool" where
  "table_valid t =
     ((\<forall>col \<in> set (columns t). index col < length (columns t))
      \<and> (\<forall>(k, row) \<in> set (data t). length (columns t) \<le> length row)
      \<and> (\<forall>(k, v) \<in> set (cell_render_cache t). v \<noteq> []))"

text \<open>
  An entry that \<^verbatim>\<open>_render_cell\<close> computes on a cache miss: the rendering of the cell of
  some column of the table in the display row of the key.
\<close>

definition rendered_from :: "table \<Rightarrow> cell_key \<Rightarrow> lines \<Rightarrow> bool" where
  "rendered_from t k v =
     (\<exists>col \<in> set (columns t). snd k = index col \<and> index col < length (get_row t (fst k))
        \<and> v = console_render_lines (get_row t (fst k) ! index col) (width col))"

text \<open>
  The tables built by \<^verbatim>\<open>add_column\<close> and \<^verbatim>\<open>add_row\<close> where no column is added after a
  row and every row has one value per column; they may be rendered at any moment.
\<close>

inductive well_built :: "table \<Rightarrow> bool" where
  wb_init: "well_built (init offset region_width hstyle cstyle)"
| wb_add_column: "well_built t \<Longrightarrow> data t = [] \<Longrightarrow> well_built (add_column t text_label w)"
| wb_add_row: "well_built t \<Longrightarrow> length cells = length (columns t) \<Longrightarrow> well_built (add_row t cells)"
| wb_show_header: "well_built t \<Longrightarrow> well_built (t\<lparr>show_header := b\<rparr>)"
| wb_render: "well_built t \<Longrightarrow> well_built (snd (render_lines t line_range column_range))"

subsection \<open>An example table\<close>

text \<open>
  Two columns of width 3 and one row in a content region of width 6, and the same table
  after its first two display rows were rendered.
\<close>

definition demo_header_style :: style where
  "demo_header_style = Style None None (Some True)"

definition demo_colors_style :: style where
  "demo_colors_style = Style (Some ''white'') (Some ''black'') None"

definition demo_table :: table where
  "demo_table =
     add_row (add_column (add_column
       (init (0, 0) 6 demo_header_style demo_colors_style) ''A'' 3) ''B'' 3) [''a'', ''b'']"

definition demo_warm :: table where
  "demo_warm = snd (render_lines demo_table (0, 2) (0, 6))"

text \<open>
  The two columns before the row is added; the table whose two display rows were rendered
  before the row was added; and the example table with the header hidden from the start.
\<close>

definition demo_columns :: table where
  "demo_columns = add_column (add_column
       (init (0, 0) 6 demo_header_style demo_colors_style) ''A'' 3) ''B'' 3"

definition demo_stale :: table where
  "demo_stale = add_row (snd (render_lines demo_columns (0, 2) (0, 6))) [''a'', ''b'']"

definition demo_headless :: table where
  "demo_headless = add_row (add_column (add_column
       (init (0, 0) 6 demo_header_style demo_colors_style\<lparr>show_header := False\<rparr>) ''A'' 3) ''B'' 3)
       [''a'', ''b'']"

section \<open>Properties\<close>

lemmas table_ops = init_def add_column_def add_row_def update_dimensions_def

subsection \<open>The table model\<close>

text \<open>
  C1. \<^verbatim>\<open>get_row\<close> should return, with the header hidden, the data row stored at key \<open>y\<close>.
  It returns the row stored at key 0 for every \<open>y\<close>: in a table with the header hidden that
  stores \<open>[''a'']\<close> at key 0 and \<open>[''b'']\<close> at key 1, display row 1 is \<open>[''a'']\<close>.
\<close>

theorem get_row_header_hidden_ignores_y:
  "get_row (add_row (add_row (add_column
        (init (0, 0) 5 (Style None None None) (Style None None None)\<lparr>show_header := False\<rparr>)
        ''A'' 5) [''a'']) [''b'']) 1 = [''a'']
   \<and> map_of (data (add_row (add_row (add_column
        (init (0, 0) 5 (Style None None None) (Style None None None)\<lparr>show_header := False\<rparr>)
        ''A'' 5) [''a'']) [''b''])) 1 = Some [''b'']"
  by (simp add: table_ops get_row_def)

text \<open>
  C2 as stated fails: \<^verbatim>\<open>add_row\<close> has no check of the number of values. Two values given
  to a table of one column are stored as row 0, the counter becomes 1 and the virtual
  size changes.
\<close>

theorem add_row_shape_mismatch_counterexample:
  "length [''a'', ''b'']
     \<noteq> length (columns (add_column (init (0, 0) 5 (Style None None None) (Style None None None)) ''A'' 5))
   \<and> data (add_row (add_column (init (0, 0) 5 (Style None None None) (Style None None None)) ''A'' 5)
         [''a'', ''b'']) = [(0, [''a'', ''b''])]
   \<and> row_count (add_row (add_column (init (0, 0) 5 (Style None None None) (Style None None None)) ''A'' 5)
         [''a'', ''b'']) = 1
   \<and> virtual_size (add_row (add_column (init (0, 0) 5 (Style None None None) (Style None None None)) ''A'' 5)
         [''a'', ''b''])
       \<noteq> virtual_size (add_column (init (0, 0) 5 (Style None None None) (Style None None None)) ''A'' 5)"
  by (simp add: table_ops)

text \<open>
  C2, amended: \<^verbatim>\<open>add_row\<close> never fails. For every table and every tuple of values, of any
  length, the tuple is stored under the key \<open>row_count\<close>, \<open>row_count\<close> grows by one, and the
  columns and the cell render cache are as before.
\<close>

theorem add_row_always_inserts:
  "map_of (data (add_row t cells)) (row_count t) = Some cells
   \<and> row_count (add_row t cells) = row_count t + 1
   \<and> columns (add_row t cells) = columns t
   \<and> cell_render_cache (add_row t cells) = cell_render_cache t"
  by (simp add: table_ops update_conv')

subsection \<open>The virtual size\<close>

lemma update_fresh: "k \<notin> fst ` set al \<Longrightarrow> AList.update k v al = al @ [(k, v)]"
  by (induction al) auto

lemma built_keys:
  "built t \<Longrightarrow> 0 \<le> row_count t \<and> map fst (data t) = [0..row_count t - 1]"
proof (induction rule: built.induct)
  case (built_add_row t cells)
  then have fresh: "row_count t \<notin> fst ` set (data t)"
    by (metis atLeastAtMost_iff list.set_map set_upto zle_diff1_eq less_irrefl)
  have "[0..row_count t - 1] @ [row_count t] = [0..row_count t]"
    using built_add_row.IH by (simp add: upto_rec2)
  with built_add_row.IH fresh show ?case
    by (simp add: table_ops update_fresh)
qed (simp_all add: table_ops)

lemma built_length_data: "built t \<Longrightarrow> int (length (data t)) = row_count t"
proof -
  assume b: "built t"
  then have "length (data t) = length [0..row_count t - 1]"
    by (metis built_keys length_map)
  with built_keys[OF b] show ?thesis by simp
qed

text \<open>
  C4 as stated fails: the width is the sum over all columns. \<^verbatim>\<open>add_column\<close> leaves
  \<open>visible\<close> at its default \<open>False\<close>, and the one column of width 5 still counts.
\<close>

theorem virtual_size_hidden_column_counterexample:
  "fst (virtual_size (add_column (init (0, 0) 5 (Style None None None) (Style None None None)) ''A'' 5)) = 5
   \<and> sum_list (map width (filter visible
        (columns (add_column (init (0, 0) 5 (Style None None None) (Style None None None)) ''A'' 5)))) = 0"
  by (simp add: table_ops)

text \<open>
  C4, amended: the computed virtual size has width equal to the sum of the widths of all
  columns, whatever their \<open>visible\<close> flag, and height equal to the number of stored rows
  plus 1 if the header is shown; the number of stored rows is \<open>row_count\<close> in every table
  built by the public operations.
\<close>

theorem update_dimensions_virtual_size:
  "virtual_size (update_dimensions t) =
     (sum_list (map width (columns t)), int (length (data t)) + (if show_header t then 1 else 0))
   \<and> (built t \<longrightarrow> int (length (data t)) = row_count t)"
  by (simp add: update_dimensions_def built_length_data)

theorem update_dimensions_virtual_size_witness:
  "built (add_row (add_column (init (0, 0) 5 (Style None None None) (Style None None None)) ''A'' 5) [''a''])
   \<and> virtual_size (update_dimensions
        (add_row (add_column (init (0, 0) 5 (Style None None None) (Style None None None)) ''A'' 5) [''a'']))
       = (5, 2)
   \<and> row_count (add_row (add_column (init (0, 0) 5 (Style None None None) (Style None None None)) ''A'' 5)
        [''a'']) = 1"
  using update_dimensions_virtual_size
    [of "add_row (add_column (init (0, 0) 5 (Style None None None) (Style None None None)) ''A'' 5) [''a'']"]
  by (simp add: built.intros) (simp add: table_ops)

subsection \<open>Rendering a cell\<close>

lemma maxsize_pos: "0 < maxsize" by (simp add: maxsize_def)

lemma take_maxsize_Cons: "take maxsize (x # xs) = x # take (maxsize - 1) xs"
  by (simp add: maxsize_def)

lemma render_cell_hit:
  assumes "map_of (cell_render_cache t) (y, index col) = Some v"
  shows "render_cell t y col =
     (Inr v, t\<lparr>cell_render_cache := ((y, index col), v) # AList.delete (y, index col) (cell_render_cache t)\<rparr>)"
  using assms by (simp add: render_cell_def lru_contains_def cache_read_def lru_getitem_def Let_def)

lemma render_cell_miss:
  assumes "map_of (cell_render_cache t) (y, index col) = None" and "index col < length (get_row t y)"
  shows "render_cell t y col =
     (Inr (console_render_lines (get_row t y ! index col) (width col)),
      t\<lparr>cell_render_cache :=
          ((y, index col), console_render_lines (get_row t y ! index col) (width col))
            # AList.delete (y, index col)
                (take (maxsize - 1) (AList.delete (y, index col) (cell_render_cache t)))\<rparr>)"
  using assms
  by (simp add: render_cell_def lru_contains_def cache_read_def lru_getitem_def lru_setitem_def
      list_get_def take_maxsize_Cons Let_def delete_idem delete_notin_dom)

lemma render_cell_raise:
  assumes "map_of (cell_render_cache t) (y, index col) = None" and "\<not> index col < length (get_row t y)"
  shows "render_cell t y col = (Inl IndexError, t)"
  using assms by (simp add: render_cell_def lru_contains_def list_get_def)

lemma render_cell_cache_only: "\<exists>c. snd (render_cell t y col) = t\<lparr>cell_render_cache := c\<rparr>"
proof (cases "map_of (cell_render_cache t) (y, index col)")
  case None
  show ?thesis
  proof (cases "index col < length (get_row t y)")
    case True
    from render_cell_miss[OF None True] show ?thesis by auto
  next
    case False
    from render_cell_raise[OF None False] have "snd (render_cell t y col) = t\<lparr>cell_render_cache := cell_render_cache t\<rparr>"
      by simp
    then show ?thesis by blast
  qed
next
  case (Some v)
  from render_cell_hit[OF Some] show ?thesis by auto
qed

lemma render_cell_columns: "columns (snd (render_cell t y col)) = columns t"
proof -
  obtain c where "snd (render_cell t y col) = t\<lparr>cell_render_cache := c\<rparr>"
    using render_cell_cache_only by blast
  then show ?thesis by simp
qed

lemma render_cells_rel:
  assumes step: "\<And>t u col. R t u \<Longrightarrow> col \<in> set cols \<Longrightarrow>
      fst (render_cell t y col) = fst (render_cell u y col)
      \<and> R (snd (render_cell t y col)) (snd (render_cell u y col))"
  shows "R t u \<Longrightarrow> set cs \<subseteq> set cols \<Longrightarrow>
      fst (render_cells t y cs acc) = fst (render_cells u y cs acc)
      \<and> R (snd (render_cells t y cs acc)) (snd (render_cells u y cs acc))"
proof (induction cs arbitrary: t u acc)
  case Nil
  then show ?case by simp
next
  case (Cons c cs)
  obtain r t' where a: "render_cell t y c = (r, t')" by (cases "render_cell t y c")
  obtain r' u' where b: "render_cell u y c = (r', u')" by (cases "render_cell u y c")
  from step[of t u c] Cons.prems a b have rr: "r' = r" and R': "R t' u'" by auto
  note b = b[unfolded rr]
  show ?case
  proof (cases r)
    case (Inl e)
    with a b R' show ?thesis by simp
  next
    case (Inr rendered)
    show ?thesis
    proof (cases "list_get rendered 0")
      case (Inl e)
      with a b R' Inr show ?thesis by simp
    next
      case first: (Inr first_line)
      from Cons.IH[OF R', of "acc @ [first_line]"] Cons.prems(2)
      show ?thesis using a b Inr first by simp
    qed
  qed
qed

lemma render_line_rel:
  assumes step: "\<And>t u y col. R t u \<Longrightarrow> col \<in> set (columns t) \<Longrightarrow>
      fst (render_cell t y col) = fst (render_cell u y col)
      \<and> R (snd (render_cell t y col)) (snd (render_cell u y col))"
    and view: "\<And>t u. R t u \<Longrightarrow> columns t = columns u \<and> compose_line t = compose_line u"
    and R: "R t u"
  shows "fst (render_line t y x1 x2) = fst (render_line u y x1 x2)
      \<and> R (snd (render_line t y x1 x2)) (snd (render_line u y x1 x2))"
proof -
  let ?R = "\<lambda>a b. R a b \<and> columns a = columns t"
  have "fst (render_cells t y (columns t) []) = fst (render_cells u y (columns t) [])
      \<and> ?R (snd (render_cells t y (columns t) [])) (snd (render_cells u y (columns t) []))"
    by (rule render_cells_rel[where R = ?R and cols = "columns t"])
       (use step R in \<open>auto simp: render_cell_columns\<close>)
  moreover have "columns u = columns t" using view[OF R] by simp
  ultimately have eq: "fst (render_cells t y (columns t) []) = fst (render_cells u y (columns u) [])"
    and R': "R (snd (render_cells t y (columns t) [])) (snd (render_cells u y (columns u) []))"
    by simp_all
  obtain r t' where a: "render_cells t y (columns t) [] = (r, t')" by (cases "render_cells t y (columns t) []")
  obtain r' u' where b: "render_cells u y (columns u) [] = (r', u')" by (cases "render_cells u y (columns u) []")
  from eq R' a b have rr: "r' = r" and Rtu: "R t' u'" by simp_all
  note b = b[unfolded rr]
  from view[OF Rtu] have "compose_line t' = compose_line u'" by simp
  with Rtu show ?thesis using a b
    by (cases r) (simp_all add: render_line_def)
qed

lemma render_rows_rel:
  assumes step: "\<And>t u y col. R t u \<Longrightarrow> col \<in> set (columns t) \<Longrightarrow>
      fst (render_cell t y col) = fst (render_cell u y col)
      \<and> R (snd (render_cell t y col)) (snd (render_cell u y col))"
    and view: "\<And>t u. R t u \<Longrightarrow> columns t = columns u \<and> compose_line t = compose_line u"
  shows "R t u \<Longrightarrow> fst (render_rows t ys x1 x2) = fst (render_rows u ys x1 x2)
      \<and> R (snd (render_rows t ys x1 x2)) (snd (render_rows u ys x1 x2))"
proof (induction ys arbitrary: t u)
  case Nil
  then show ?case by simp
next
  case (Cons y ys)
  obtain r t' where a: "render_line t y x1 x2 = (r, t')" by (cases "render_line t y x1 x2")
  obtain r' u' where b: "render_line u y x1 x2 = (r', u')" by (cases "render_line u y x1 x2")
  from render_line_rel[of R t u y x1 x2, OF step view Cons.prems] a b
  have rr: "r' = r" and R': "R t' u'" by simp_all
  note b = b[unfolded rr]
  obtain q t'' where c: "render_rows t' ys x1 x2 = (q, t'')" by (cases "render_rows t' ys x1 x2")
  obtain q' u'' where d: "render_rows u' ys x1 x2 = (q', u'')" by (cases "render_rows u' ys x1 x2")
  from Cons.IH[OF R'] c d have qq: "q' = q" and R'': "R t'' u''" by simp_all
  note d = d[unfolded qq]
  show ?case using a b c d R' R''
    by (cases r; cases q) simp_all
qed

lemma model_eq_iff: "model t = model u \<longleftrightarrow> (\<exists>c. u = t\<lparr>cell_render_cache := c\<rparr>)"
proof
  assume "model t = model u"
  then have "u = t\<lparr>cell_render_cache := cell_render_cache u\<rparr>"
    by (cases t; cases u) (simp add: model_def)
  then show "\<exists>c. u = t\<lparr>cell_render_cache := c\<rparr>" ..
next
  assume "\<exists>c. u = t\<lparr>cell_render_cache := c\<rparr>"
  then show "model t = model u" by (auto simp: model_def)
qed

lemma render_cell_model: "model (snd (render_cell t y col)) = model t"
  using render_cell_cache_only[of t y col] by (auto simp: model_def)

lemma get_row_cache [simp]: "get_row (t\<lparr>cell_render_cache := c\<rparr>) y = get_row t y"
  by (simp add: get_row_def split: option.splits)

lemma compose_line_cache [simp]: "compose_line (t\<lparr>cell_render_cache := c\<rparr>) = compose_line t"
  by (intro ext) (simp add: compose_line_def Let_def)

lemma model_view:
  assumes "model t = model u"
  shows "columns t = columns u" "compose_line t = compose_line u" "get_row t = get_row u"
    "scroll_offset t = scroll_offset u" "fixed_rows t = fixed_rows u" "colors_style t = colors_style u"
    "content_region_width t = content_region_width u"
  using assms unfolding model_eq_iff by (auto intro!: ext)

lemma indexed_nth:
  assumes "columns_indexed t" "col \<in> set (columns t)"
  shows "index col < length (columns t) \<and> columns t ! index col = col"
proof -
  from assms(2) obtain j where j: "j < length (columns t)" "columns t ! j = col"
    by (auto simp: in_set_conv_nth)
  from assms(1) j(1) have "index (columns t ! j) = j"
    unfolding columns_indexed_def by (metis nth_map nth_upt add_0)
  with j show ?thesis by simp
qed

lemma coherent_subset:
  assumes "cache_coherent t" "set c \<subseteq> set (cell_render_cache t)"
  shows "cache_coherent (t\<lparr>cell_render_cache := c\<rparr>)"
  using assms unfolding cache_coherent_def by auto

lemma coherent_Cons:
  assumes "cache_coherent (t\<lparr>cell_render_cache := c\<rparr>)"
    and "i < length (columns t) \<Longrightarrow>
           i < length (get_row t y) \<and> v = console_render_lines (get_row t y ! i) (width (columns t ! i))"
  shows "cache_coherent (t\<lparr>cell_render_cache := ((y, i), v) # c\<rparr>)"
  using assms unfolding cache_coherent_def by auto

lemma set_delete_subset: "set (AList.delete k xs) \<subseteq> set xs"
  by (auto simp: AList.delete_eq)

lemma render_cell_coherent:
  assumes coh: "cache_coherent t" and idx: "columns_indexed t" and col: "col \<in> set (columns t)"
  shows "fst (render_cell t y col) =
           (if index col < length (get_row t y)
            then Inr (console_render_lines (get_row t y ! index col) (width col))
            else Inl IndexError)
         \<and> cache_coherent (snd (render_cell t y col))"
proof -
  from indexed_nth[OF idx col] have i: "index col < length (columns t)" "columns t ! index col = col"
    by simp_all
  show ?thesis
  proof (cases "map_of (cell_render_cache t) (y, index col)")
    case None
    show ?thesis
    proof (cases "index col < length (get_row t y)")
      case True
      have "set (AList.delete (y, index col)
                (take (maxsize - 1) (AList.delete (y, index col) (cell_render_cache t))))
            \<subseteq> set (cell_render_cache t)"
        using set_delete_subset set_take_subset by fast
      from coherent_subset[OF coh this] True i show ?thesis
        by (simp add: render_cell_miss[OF None True] coherent_Cons)
    next
      case False
      with coh show ?thesis by (simp add: render_cell_raise[OF None False])
    qed
  next
    case (Some v)
    then have mem: "((y, index col), v) \<in> set (cell_render_cache t)" by (rule map_of_SomeD)
    with coh i have v: "index col < length (get_row t y)"
      "v = console_render_lines (get_row t y ! index col) (width col)"
      unfolding cache_coherent_def by auto
    from coherent_subset[OF coh set_delete_subset] v i show ?thesis
      by (simp add: render_cell_hit[OF Some] coherent_Cons)
  qed
qed

lemma render_lines_unfold:
  "render_lines t (y1, y2) (x1, x2) =
     (case render_rows t (range 0 (fixed_rows t)) (x1 + fst (scroll_offset t)) (x2 + fst (scroll_offset t)) of
        (Inl e, t1) \<Rightarrow> (Inl e, t1)
      | (Inr fixed_lines, t1) \<Rightarrow>
          (case render_rows t1 (range (y1 + snd (scroll_offset t)) (y2 + snd (scroll_offset t)))
                  (x1 + fst (scroll_offset t)) (x2 + fst (scroll_offset t)) of
             (Inl e, t2) \<Rightarrow> (Inl e, t2)
           | (Inr scrolled, t2) \<Rightarrow>
               (Inr (map (\<lambda>line. apply_style line (colors_style t2))
                      (if fixed_lines \<noteq> [] then fixed_lines @ slice_from scrolled (fixed_rows t2)
                       else scrolled)), t2)))"
  by (simp add: render_lines_def Let_def split: prod.splits sum.splits)

lemma render_lines_rel:
  assumes step: "\<And>t u y col. R t u \<Longrightarrow> col \<in> set (columns t) \<Longrightarrow>
      fst (render_cell t y col) = fst (render_cell u y col)
      \<and> R (snd (render_cell t y col)) (snd (render_cell u y col))"
    and view: "\<And>t u. R t u \<Longrightarrow> columns t = columns u \<and> compose_line t = compose_line u"
    and host: "\<And>t u. R t u \<Longrightarrow> scroll_offset t = scroll_offset u \<and> fixed_rows t = fixed_rows u
                  \<and> colors_style t = colors_style u"
    and R: "R t u"
  shows "fst (render_lines t line_range column_range) = fst (render_lines u line_range column_range)
      \<and> R (snd (render_lines t line_range column_range)) (snd (render_lines u line_range column_range))"
proof -
  obtain y1 y2 x1 x2 where lr: "line_range = (y1, y2)" and cr: "column_range = (x1, x2)"
    by (cases line_range; cases column_range) simp
  let ?X1 = "x1 + fst (scroll_offset t)" and ?X2 = "x2 + fst (scroll_offset t)"
  let ?ys = "range (y1 + snd (scroll_offset t)) (y2 + snd (scroll_offset t))"
  from host[OF R] have h: "scroll_offset u = scroll_offset t" "fixed_rows u = fixed_rows t" by simp_all
  obtain r t1 where a: "render_rows t (range 0 (fixed_rows t)) ?X1 ?X2 = (r, t1)"
    by (cases "render_rows t (range 0 (fixed_rows t)) ?X1 ?X2")
  obtain r' u1 where b: "render_rows u (range 0 (fixed_rows t)) ?X1 ?X2 = (r', u1)"
    by (cases "render_rows u (range 0 (fixed_rows t)) ?X1 ?X2")
  from render_rows_rel[of R t u "range 0 (fixed_rows t)" ?X1 ?X2, OF step view R] a b
  have rr: "r' = r" and R1: "R t1 u1" by simp_all
  note b = b[unfolded rr]
  obtain q t2 where c: "render_rows t1 ?ys ?X1 ?X2 = (q, t2)" by (cases "render_rows t1 ?ys ?X1 ?X2")
  obtain q' u2 where d: "render_rows u1 ?ys ?X1 ?X2 = (q', u2)" by (cases "render_rows u1 ?ys ?X1 ?X2")
  from render_rows_rel[of R t1 u1 ?ys ?X1 ?X2, OF step view R1] c d
  have qq: "q' = q" and R2: "R t2 u2" by simp_all
  note d = d[unfolded qq]
  from host[OF R2] have h2: "fixed_rows u2 = fixed_rows t2" "colors_style u2 = colors_style t2" by simp_all
  show ?thesis unfolding lr cr render_lines_unfold h using a b c d R1 R2 h2
    by (cases r; cases q) simp_all
qed

text \<open>An invariant of the table that every cell rendering keeps is kept by a whole rendering.\<close>

lemma render_lines_invariant:
  assumes step: "\<And>t y col. P t \<Longrightarrow> col \<in> set (columns t) \<Longrightarrow> P (snd (render_cell t y col))"
    and P: "P t"
  shows "P (snd (render_lines t line_range column_range))"
proof -
  let ?R = "\<lambda>a b. P a \<and> b = a"
  have "fst (render_lines t line_range column_range) = fst (render_lines t line_range column_range)
      \<and> ?R (snd (render_lines t line_range column_range)) (snd (render_lines t line_range column_range))"
    by (rule render_lines_rel[where R = ?R]) (use step P in auto)
  then show ?thesis by simp
qed

lemma render_lines_model: "model (snd (render_lines t line_range column_range)) = model t"
  by (rule render_lines_invariant[where P = "\<lambda>u. model u = model t"]) (simp_all add: render_cell_model)

lemma cache_coherent_model:
  "model t = model u \<Longrightarrow> columns_indexed t \<Longrightarrow> columns_indexed u"
  unfolding model_eq_iff columns_indexed_def by auto

text \<open>
  C7. With the columns indexed by position and a cache whose entries were rendered from
  the table as it is (no model mutation since), \<^verbatim>\<open>render_lines\<close> returns what it returns
  after the cache is cleared, error or lines, and leaves such a cache behind.
\<close>

theorem cache_transparency:
  assumes idx: "columns_indexed t" and coh: "cache_coherent t"
  shows "fst (render_lines t line_range column_range)
           = fst (render_lines (t\<lparr>cell_render_cache := []\<rparr>) line_range column_range)
         \<and> cache_coherent (snd (render_lines t line_range column_range))"
proof -
  let ?R = "\<lambda>a b. model a = model b \<and> columns_indexed a \<and> cache_coherent a \<and> cache_coherent b"
  let ?u = "t\<lparr>cell_render_cache := []\<rparr>"
  have step: "fst (render_cell a y col) = fst (render_cell b y col)
      \<and> ?R (snd (render_cell a y col)) (snd (render_cell b y col))"
    if R: "?R a b" and col: "col \<in> set (columns a)" for a b y col
  proof -
    from R have m: "model a = model b" by simp
    note v = model_view[OF m]
    from R m have ib: "columns_indexed b" using cache_coherent_model by blast
    from col v have colb: "col \<in> set (columns b)" by simp
    from R have ca: "cache_coherent a" and cb: "cache_coherent b" and ia: "columns_indexed a" by simp_all
    note A = render_cell_coherent[OF ca ia col, of y]
    note B = render_cell_coherent[OF cb ib colb, of y]
    have "model (snd (render_cell a y col)) = model (snd (render_cell b y col))"
      using m by (simp add: render_cell_model)
    moreover have "columns_indexed (snd (render_cell a y col))"
      using cache_coherent_model[OF render_cell_model[symmetric] ia] .
    moreover have "fst (render_cell a y col) = fst (render_cell b y col)"
      using A B by (simp add: v(3))
    ultimately show ?thesis using A B by blast
  qed
  have view: "columns a = columns b \<and> compose_line a = compose_line b" if "?R a b" for a b
    using that model_view(1,2)[of a b] by blast
  have host: "scroll_offset a = scroll_offset b \<and> fixed_rows a = fixed_rows b
      \<and> colors_style a = colors_style b" if "?R a b" for a b
    using that model_view(4,5,6)[of a b] by blast
  have "?R t ?u"
    using idx coh by (simp add: model_def cache_coherent_def)
  from render_lines_rel[where R = ?R, OF step view host this, of line_range column_range]
  show ?thesis by blast
qed

lemma demo_warm_eq:
  "demo_warm = demo_table\<lparr>cell_render_cache :=
      [((1, 1), [[Segment '' b '' None]]), ((1, 0), [[Segment '' a '' None]]),
       ((0, 1), [[Segment '' B '' None]]), ((0, 0), [[Segment '' A '' None]])]\<rparr>"
  by code_simp

theorem cache_transparency_witness:
  "columns_indexed demo_warm \<and> cache_coherent demo_warm \<and> cell_render_cache demo_warm \<noteq> []
   \<and> fst (render_lines demo_warm (0, 3) (0, 6))
       = fst (render_lines (demo_warm\<lparr>cell_render_cache := []\<rparr>) (0, 3) (0, 6))"
proof -
  have a: "columns_indexed demo_warm" unfolding demo_warm_eq by code_simp
  have b: "cache_coherent demo_warm" unfolding demo_warm_eq by code_simp
  have c: "cell_render_cache demo_warm \<noteq> []" unfolding demo_warm_eq by simp
  show ?thesis using a b c cache_transparency [OF a b, of "(0, 3)" "(0, 6)"] by simp
qed

lemma render_line_invariant:
  assumes step: "\<And>t y col. P t \<Longrightarrow> col \<in> set (columns t) \<Longrightarrow> P (snd (render_cell t y col))"
    and P: "P t"
  shows "P (snd (render_line t y x1 x2))"
proof -
  let ?R = "\<lambda>a b. P a \<and> b = a"
  have "fst (render_line t y x1 x2) = fst (render_line t y x1 x2)
      \<and> ?R (snd (render_line t y x1 x2)) (snd (render_line t y x1 x2))"
    by (rule render_line_rel[where R = ?R]) (use step P in auto)
  then show ?thesis by simp
qed

lemma render_rows_invariant:
  assumes step: "\<And>t y col. P t \<Longrightarrow> col \<in> set (columns t) \<Longrightarrow> P (snd (render_cell t y col))"
    and P: "P t"
  shows "P (snd (render_rows t ys x1 x2))"
proof -
  let ?R = "\<lambda>a b. P a \<and> b = a"
  have "fst (render_rows t ys x1 x2) = fst (render_rows t ys x1 x2)
      \<and> ?R (snd (render_rows t ys x1 x2)) (snd (render_rows t ys x1 x2))"
    by (rule render_rows_rel[where R = ?R]) (use step P in auto)
  then show ?thesis by simp
qed

lemma render_line_model: "model (snd (render_line t y x1 x2)) = model t"
  by (rule render_line_invariant[where P = "\<lambda>u. model u = model t"]) (simp_all add: render_cell_model)

lemma render_rows_model: "model (snd (render_rows t ys x1 x2)) = model t"
  by (rule render_rows_invariant[where P = "\<lambda>u. model u = model t"]) (simp_all add: render_cell_model)

subsection \<open>Widths\<close>

lemma line_length_append [simp]: "line_length (a @ b) = line_length a + line_length b"
  by (simp add: line_length_def)

lemma line_length_apply_style [simp]: "line_length (apply_style line st) = line_length line"
  by (simp add: apply_style_def line_length_def cell_length_def[abs_def] comp_def)

lemma length_set_cell_size [simp]: "length (set_cell_size txt n) = n"
  by (simp add: set_cell_size_def)

lemma line_length_truncate_line:
  "done_length \<le> target \<Longrightarrow> target \<le> done_length + line_length line \<Longrightarrow>
     line_length (truncate_line line done_length target) = target - done_length"
proof (induction line done_length target rule: truncate_line.induct)
  case (1 done_length target)
  then show ?case by (simp add: line_length_def)
next
  case (2 s rest done_length target)
  show ?case
  proof (cases "done_length + cell_length s < target")
    case True
    with 2 show ?thesis by (simp add: line_length_def)
  next
    case False
    then show ?thesis by (simp add: line_length_def cell_length_def)
  qed
qed

lemma line_length_adjust_line_length [simp]:
  "line_length (adjust_line_length line target) = target"
  by (simp add: adjust_line_length_def line_length_truncate_line)
     (simp add: line_length_def cell_length_def)

lemma line_length_compose_line [simp]:
  "line_length (compose_line t y x1 x2 cell_segments) = content_region_width t"
  by (simp add: compose_line_def Let_def)

lemma render_line_width:
  assumes "fst (render_line t y x1 x2) = Inr line"
  shows "line_length line = content_region_width t"
proof -
  obtain r t' where a: "render_cells t y (columns t) [] = (r, t')"
    by (cases "render_cells t y (columns t) []")
  with assms obtain cs where "r = Inr cs" "line = compose_line t' y x1 x2 cs"
    by (cases r) (auto simp: render_line_def)
  moreover from a have "snd (render_line t y x1 x2) = t'"
    by (cases r) (simp_all add: render_line_def)
  then have "model t' = model t" using render_line_model[of t y x1 x2] by simp
  ultimately show ?thesis using model_view(7)[of t' t] by simp
qed

lemma render_rows_width:
  "fst (render_rows t ys x1 x2) = Inr ls \<Longrightarrow> l \<in> set ls \<Longrightarrow> line_length l = content_region_width t"
proof (induction ys arbitrary: t ls)
  case Nil
  then show ?case by simp
next
  case (Cons y ys)
  obtain r t' where a: "render_line t y x1 x2 = (r, t')" by (cases "render_line t y x1 x2")
  obtain q t'' where b: "render_rows t' ys x1 x2 = (q, t'')" by (cases "render_rows t' ys x1 x2")
  from Cons.prems(1) a b obtain line rest where r: "r = Inr line" and q: "q = Inr rest" and ls: "ls = line # rest"
    by (cases r; cases q) auto
  from a have "model t' = model t" using render_line_model[of t y x1 x2] by simp
  then have w: "content_region_width t' = content_region_width t" by (rule model_view(7))
  from a r have "line_length line = content_region_width t" using render_line_width[of t y x1 x2 line] by simp
  moreover from Cons.IH[of t' rest] b q w have "l \<in> set rest \<Longrightarrow> line_length l = content_region_width t"
    by simp
  ultimately show ?case using Cons.prems(2) ls by auto
qed

lemma set_slice_from: "set (slice_from xs n) \<subseteq> set xs"
  by (auto simp: slice_from_def dest: in_set_dropD)

text \<open>
  C6. Every line that \<^verbatim>\<open>render_lines\<close> returns is exactly as wide as the viewport, the
  content region of the widget: \<^verbatim>\<open>_render_line\<close> pads or truncates to
  \<^verbatim>\<open>self.content_region.width\<close> whatever the column widths sum to and whatever column range
  is requested, and the styles applied afterwards keep the text.
\<close>

theorem render_lines_width:
  assumes "fst (render_lines t line_range column_range) = Inr ls"
  shows "\<forall>line \<in> set ls. line_length line = content_region_width t"
proof -
  obtain y1 y2 x1 x2 where lr: "line_range = (y1, y2)" and cr: "column_range = (x1, x2)"
    by (cases line_range; cases column_range) simp
  let ?X1 = "x1 + fst (scroll_offset t)" and ?X2 = "x2 + fst (scroll_offset t)"
  let ?ys = "range (y1 + snd (scroll_offset t)) (y2 + snd (scroll_offset t))"
  obtain r t1 where a: "render_rows t (range 0 (fixed_rows t)) ?X1 ?X2 = (r, t1)"
    by (cases "render_rows t (range 0 (fixed_rows t)) ?X1 ?X2")
  obtain q t2 where b: "render_rows t1 ?ys ?X1 ?X2 = (q, t2)" by (cases "render_rows t1 ?ys ?X1 ?X2")
  from assms a b obtain fixed_lines scrolled where r: "r = Inr fixed_lines" and q: "q = Inr scrolled"
    and ls: "ls = map (\<lambda>line. apply_style line (colors_style t2))
                (if fixed_lines \<noteq> [] then fixed_lines @ slice_from scrolled (fixed_rows t2) else scrolled)"
    unfolding lr cr render_lines_unfold by (cases r; cases q) auto
  from a have "model t1 = model t" using render_rows_model[of t "range 0 (fixed_rows t)" ?X1 ?X2] by simp
  then have w: "content_region_width t1 = content_region_width t" by (rule model_view(7))
  have f: "line_length l = content_region_width t" if "l \<in> set fixed_lines" for l
    using render_rows_width[of t "range 0 (fixed_rows t)" ?X1 ?X2 fixed_lines l] a r that by simp
  have s: "line_length l = content_region_width t" if "l \<in> set scrolled" for l
    using render_rows_width[of t1 ?ys ?X1 ?X2 scrolled l] b q w that by simp
  show ?thesis
  proof
    fix line assume "line \<in> set ls"
    then obtain l where l: "line = apply_style l (colors_style t2)"
      and "l \<in> set fixed_lines \<or> l \<in> set scrolled"
      using ls set_slice_from[of scrolled "fixed_rows t2"] by (auto split: if_splits)
    with f s show "line_length line = content_region_width t" by auto
  qed
qed

theorem render_lines_width_witness:
  "fst (render_lines demo_table (0, 2) (0, 6)) =
     Inr [[Segment '' A '' (Some (Style (Some ''white'') (Some ''black'') (Some True))),
           Segment '' B '' (Some (Style (Some ''white'') (Some ''black'') (Some True)))],
          [Segment '' a '' (Some (Style (Some ''white'') (Some ''black'') (Some True))),
           Segment '' b '' (Some (Style (Some ''white'') (Some ''black'') None))]]
   \<and> line_length [Segment '' a '' (Some (Style (Some ''white'') (Some ''black'') (Some True))),
           Segment '' b '' (Some (Style (Some ''white'') (Some ''black'') None))]
       = content_region_width demo_table"
proof -
  have e: "fst (render_lines demo_table (0, 2) (0, 6)) =
     Inr [[Segment '' A '' (Some (Style (Some ''white'') (Some ''black'') (Some True))),
           Segment '' B '' (Some (Style (Some ''white'') (Some ''black'') (Some True)))],
          [Segment '' a '' (Some (Style (Some ''white'') (Some ''black'') (Some True))),
           Segment '' b '' (Some (Style (Some ''white'') (Some ''black'') None))]]"
    by code_simp
  show ?thesis using e render_lines_width [OF e] by simp
qed

subsection \<open>Valid tables never raise\<close>

lemma get_row_length: "table_valid t \<Longrightarrow> length (columns t) \<le> length (get_row t y)"
  by (auto simp: get_row_def table_valid_def split: option.splits dest!: map_of_SomeD)

lemma valid_cache:
  assumes "table_valid t" "\<forall>(k, v) \<in> set c. v \<noteq> []"
  shows "table_valid (t\<lparr>cell_render_cache := c\<rparr>)"
  using assms by (simp add: table_valid_def)

lemma render_cell_ok:
  assumes v: "table_valid t" and col: "col \<in> set (columns t)"
  shows "\<exists>rendered. fst (render_cell t y col) = Inr rendered \<and> rendered \<noteq> []
           \<and> table_valid (snd (render_cell t y col))"
proof (cases "map_of (cell_render_cache t) (y, index col)")
  case None
  from v col have "index col < length (columns t)" by (auto simp: table_valid_def)
  with get_row_length[OF v, of y] have i: "index col < length (get_row t y)" by simp
  have ne: "console_render_lines c w \<noteq> []" for c w by (simp add: console_render_lines_def)
  have "set (AList.delete (y, index col)
            (take (maxsize - 1) (AList.delete (y, index col) (cell_render_cache t))))
          \<subseteq> set (cell_render_cache t)"
    using set_delete_subset set_take_subset by fast
  with v have "\<forall>(k, v) \<in> set (AList.delete (y, index col)
            (take (maxsize - 1) (AList.delete (y, index col) (cell_render_cache t)))). v \<noteq> []"
    unfolding table_valid_def by blast
  with ne show ?thesis
    by (simp add: render_cell_miss[OF None i] valid_cache[OF v])
next
  case (Some rendered)
  then have "((y, index col), rendered) \<in> set (cell_render_cache t)" by (rule map_of_SomeD)
  with v have ne: "rendered \<noteq> []" by (auto simp: table_valid_def)
  have "\<forall>(k, v) \<in> set (AList.delete (y, index col) (cell_render_cache t)). v \<noteq> []"
    using v set_delete_subset[of "(y, index col)" "cell_render_cache t"] unfolding table_valid_def by blast
  with ne show ?thesis
    by (simp add: render_cell_hit[OF Some] valid_cache[OF v])
qed

lemma render_cells_ok:
  "table_valid t \<Longrightarrow> set cs \<subseteq> set (columns t) \<Longrightarrow>
     \<exists>r. fst (render_cells t y cs acc) = Inr r \<and> table_valid (snd (render_cells t y cs acc))"
proof (induction cs arbitrary: t acc)
  case Nil
  then show ?case by simp
next
  case (Cons c cs)
  obtain r t' where a: "render_cell t y c = (r, t')" by (cases "render_cell t y c")
  from render_cell_ok[OF Cons.prems(1), of c y] Cons.prems(2) a
  obtain rendered where r: "r = Inr rendered" and ne: "rendered \<noteq> []" and v': "table_valid t'"
    by auto
  from a have "columns t' = columns t" using render_cell_columns[of t y c] by simp
  with Cons.prems(2) have sub: "set cs \<subseteq> set (columns t')" by simp
  from ne obtain first_line rest where "rendered = first_line # rest" by (cases rendered) auto
  then have g: "list_get rendered 0 = Inr first_line" by (simp add: list_get_def)
  from Cons.IH[OF v' sub, of "acc @ [first_line]"] show ?case
    by (simp add: a r g)
qed

lemma render_line_ok:
  assumes "table_valid t"
  shows "\<exists>line. fst (render_line t y x1 x2) = Inr line \<and> table_valid (snd (render_line t y x1 x2))"
proof -
  obtain r t' where a: "render_cells t y (columns t) [] = (r, t')"
    by (cases "render_cells t y (columns t) []")
  from render_cells_ok[OF assms, of "columns t" y "[]"] a
  obtain cs where "r = Inr cs" "table_valid t'" by auto
  with a show ?thesis by (simp add: render_line_def)
qed

lemma render_rows_length:
  "fst (render_rows t ys x1 x2) = Inr ls \<Longrightarrow> length ls = length ys"
proof (induction ys arbitrary: t ls)
  case Nil
  then show ?case by simp
next
  case (Cons y ys)
  obtain r t' where a: "render_line t y x1 x2 = (r, t')" by (cases "render_line t y x1 x2")
  obtain q t'' where b: "render_rows t' ys x1 x2 = (q, t'')" by (cases "render_rows t' ys x1 x2")
  from Cons.prems a b obtain line rest where "q = Inr rest" "ls = line # rest"
    by (cases r; cases q) auto
  with Cons.IH[of t' rest] b show ?case by simp
qed

lemma render_rows_ok:
  "table_valid t \<Longrightarrow>
     \<exists>ls. fst (render_rows t ys x1 x2) = Inr ls \<and> table_valid (snd (render_rows t ys x1 x2))"
proof (induction ys arbitrary: t)
  case Nil
  then show ?case by simp
next
  case (Cons y ys)
  obtain r t' where a: "render_line t y x1 x2 = (r, t')" by (cases "render_line t y x1 x2")
  from render_line_ok[OF Cons.prems, of y x1 x2] a obtain line where r: "r = Inr line" and v': "table_valid t'"
    by auto
  obtain q t'' where b: "render_rows t' ys x1 x2 = (q, t'')" by (cases "render_rows t' ys x1 x2")
  from Cons.IH[OF v', of] b obtain rest where "q = Inr rest" "table_valid t''" by auto
  with a b r show ?case by simp
qed

lemma length_range [simp]: "length (range a b) = nat (b - a)"
  by (simp add: range_def)

lemma render_lines_count:
  assumes "fst (render_lines t (y1, y2) (x1, x2)) = Inr ls"
  shows "length ls = (if 0 < fixed_rows t then nat (fixed_rows t) + (nat (y2 - y1) - nat (fixed_rows t))
                      else nat (y2 - y1))"
proof -
  let ?X1 = "x1 + fst (scroll_offset t)" and ?X2 = "x2 + fst (scroll_offset t)"
  let ?ys = "range (y1 + snd (scroll_offset t)) (y2 + snd (scroll_offset t))"
  obtain r t1 where a: "render_rows t (range 0 (fixed_rows t)) ?X1 ?X2 = (r, t1)"
    by (cases "render_rows t (range 0 (fixed_rows t)) ?X1 ?X2")
  obtain q t2 where b: "render_rows t1 ?ys ?X1 ?X2 = (q, t2)" by (cases "render_rows t1 ?ys ?X1 ?X2")
  from assms a b obtain fixed_lines scrolled where r: "r = Inr fixed_lines" and q: "q = Inr scrolled"
    and ls: "ls = map (\<lambda>line. apply_style line (colors_style t2))
                (if fixed_lines \<noteq> [] then fixed_lines @ slice_from scrolled (fixed_rows t2) else scrolled)"
    unfolding render_lines_unfold by (cases r; cases q) auto
  from a r have lf: "length fixed_lines = nat (fixed_rows t)"
    using render_rows_length[of t "range 0 (fixed_rows t)" ?X1 ?X2 fixed_lines] by simp
  from b q have lq: "length scrolled = nat (y2 - y1)"
    using render_rows_length[of t1 ?ys ?X1 ?X2 scrolled] by simp
  have "model t2 = model t"
    using a b render_rows_model[of t "range 0 (fixed_rows t)" ?X1 ?X2] render_rows_model[of t1 ?ys ?X1 ?X2]
    by simp
  then have fr: "fixed_rows t2 = fixed_rows t" by (rule model_view(5))
  show ?thesis
  proof (cases "0 < fixed_rows t")
    case True
    with lf have "fixed_lines \<noteq> []" by auto
    with True ls lf lq fr show ?thesis by (simp add: slice_from_def)
  next
    case False
    with lf have "fixed_lines = []" by simp
    with False ls lq show ?thesis by simp
  qed
qed

lemma render_lines_ok:
  assumes "table_valid t"
  shows "\<exists>ls. fst (render_lines t line_range column_range) = Inr ls
           \<and> table_valid (snd (render_lines t line_range column_range))"
proof -
  obtain y1 y2 x1 x2 where lr: "line_range = (y1, y2)" and cr: "column_range = (x1, x2)"
    by (cases line_range; cases column_range) simp
  let ?X1 = "x1 + fst (scroll_offset t)" and ?X2 = "x2 + fst (scroll_offset t)"
  let ?ys = "range (y1 + snd (scroll_offset t)) (y2 + snd (scroll_offset t))"
  obtain r t1 where a: "render_rows t (range 0 (fixed_rows t)) ?X1 ?X2 = (r, t1)"
    by (cases "render_rows t (range 0 (fixed_rows t)) ?X1 ?X2")
  from render_rows_ok[OF assms, of "range 0 (fixed_rows t)" ?X1 ?X2] a
  obtain fixed_lines where r: "r = Inr fixed_lines" and v1: "table_valid t1" by auto
  obtain q t2 where b: "render_rows t1 ?ys ?X1 ?X2 = (q, t2)" by (cases "render_rows t1 ?ys ?X1 ?X2")
  from render_rows_ok[OF v1, of ?ys ?X1 ?X2] b
  obtain scrolled where q: "q = Inr scrolled" and v2: "table_valid t2" by auto
  show ?thesis unfolding lr cr render_lines_unfold using a b r q v2 by simp
qed

text \<open>
  C8, amended: on a valid table a malformed request is not an error, but its result is
  not empty either. Whatever \<open>x1\<close> and \<open>x2\<close> are, both list comprehensions of
  \<^verbatim>\<open>render_lines\<close> return: the pinned rows \<open>[0, fixed_rows)\<close> give \<open>fixed_rows\<close> lines and the
  requested range gives \<open>y2 - y1\<close> lines (none if \<open>y2 \<le> y1\<close>), each as wide as the content
  region. The result is the pinned lines followed by the lines of the requested rows
  beyond the first \<open>fixed_rows\<close>, under the base style; with \<open>y2 \<le> y1\<close> it is exactly the
  pinned lines, and no line at all only if \<open>fixed_rows \<le> 0\<close>.
\<close>

theorem malformed_request_not_empty:
  assumes "table_valid t"
  shows "\<exists>fixed_lines scrolled.
      fst (render_rows t (range 0 (fixed_rows t))
             (x1 + fst (scroll_offset t)) (x2 + fst (scroll_offset t))) = Inr fixed_lines
    \<and> fst (render_rows
             (snd (render_rows t (range 0 (fixed_rows t))
                     (x1 + fst (scroll_offset t)) (x2 + fst (scroll_offset t))))
             (range (y1 + snd (scroll_offset t)) (y2 + snd (scroll_offset t)))
             (x1 + fst (scroll_offset t)) (x2 + fst (scroll_offset t))) = Inr scrolled
    \<and> length fixed_lines = nat (fixed_rows t)
    \<and> length scrolled = nat (y2 - y1)
    \<and> (\<forall>line \<in> set (fixed_lines @ scrolled). line_length line = content_region_width t)
    \<and> fst (render_lines t (y1, y2) (x1, x2)) =
          Inr (map (\<lambda>line. apply_style line (colors_style t))
                 (fixed_lines @ drop (nat (fixed_rows t)) scrolled))
    \<and> length (fixed_lines @ drop (nat (fixed_rows t)) scrolled) =
          (if 0 < fixed_rows t then nat (fixed_rows t) + (nat (y2 - y1) - nat (fixed_rows t))
           else nat (y2 - y1))
    \<and> (y2 \<le> y1 \<longrightarrow>
          fst (render_lines t (y1, y2) (x1, x2)) =
            Inr (map (\<lambda>line. apply_style line (colors_style t)) fixed_lines))"
proof -
  let ?X1 = "x1 + fst (scroll_offset t)" and ?X2 = "x2 + fst (scroll_offset t)"
  let ?ys = "range (y1 + snd (scroll_offset t)) (y2 + snd (scroll_offset t))"
  let ?sty = "\<lambda>line. apply_style line (colors_style t)"
  obtain r t1 where a: "render_rows t (range 0 (fixed_rows t)) ?X1 ?X2 = (r, t1)"
    by (cases "render_rows t (range 0 (fixed_rows t)) ?X1 ?X2")
  from render_rows_ok[OF assms, of "range 0 (fixed_rows t)" ?X1 ?X2] a
  obtain fixed_lines where r: "r = Inr fixed_lines" and v1: "table_valid t1" by auto
  obtain q t2 where b: "render_rows t1 ?ys ?X1 ?X2 = (q, t2)" by (cases "render_rows t1 ?ys ?X1 ?X2")
  from render_rows_ok[OF v1, of ?ys ?X1 ?X2] b
  obtain scrolled where q: "q = Inr scrolled" by auto
  from a r have lf: "length fixed_lines = nat (fixed_rows t)"
    using render_rows_length[of t "range 0 (fixed_rows t)" ?X1 ?X2 fixed_lines] by simp
  from b q have lq: "length scrolled = nat (y2 - y1)"
    using render_rows_length[of t1 ?ys ?X1 ?X2 scrolled] by simp
  from a have m1: "model t1 = model t"
    using render_rows_model[of t "range 0 (fixed_rows t)" ?X1 ?X2] by simp
  from b m1 have m2: "model t2 = model t"
    using render_rows_model[of t1 ?ys ?X1 ?X2] by simp
  from m2 have fr: "fixed_rows t2 = fixed_rows t" by (rule model_view(5))
  from m2 have cs: "colors_style t2 = colors_style t" by (rule model_view(6))
  from m1 have w1: "content_region_width t1 = content_region_width t" by (rule model_view(7))
  have wf: "line_length l = content_region_width t" if "l \<in> set fixed_lines" for l
    using render_rows_width[of t "range 0 (fixed_rows t)" ?X1 ?X2 fixed_lines l] a r that by simp
  have ws: "line_length l = content_region_width t" if "l \<in> set scrolled" for l
    using render_rows_width[of t1 ?ys ?X1 ?X2 scrolled l] b q w1 that by simp
  have stitched: "(if fixed_lines \<noteq> [] then fixed_lines @ slice_from scrolled (fixed_rows t2) else scrolled)
      = fixed_lines @ drop (nat (fixed_rows t)) scrolled"
  proof (cases "0 < fixed_rows t")
    case True
    with lf have "fixed_lines \<noteq> []" by auto
    with True fr show ?thesis by (simp add: slice_from_def)
  next
    case False
    with lf have "fixed_lines = []" by simp
    with False show ?thesis by simp
  qed
  have out: "fst (render_lines t (y1, y2) (x1, x2)) =
      Inr (map ?sty (fixed_lines @ drop (nat (fixed_rows t)) scrolled))"
    unfolding render_lines_unfold using a b r q cs stitched by simp
  have len: "length (fixed_lines @ drop (nat (fixed_rows t)) scrolled) =
      (if 0 < fixed_rows t then nat (fixed_rows t) + (nat (y2 - y1) - nat (fixed_rows t))
       else nat (y2 - y1))"
    using lf lq by simp
  have empty: "fst (render_lines t (y1, y2) (x1, x2)) = Inr (map ?sty fixed_lines)" if "y2 \<le> y1"
  proof -
    from that lq have "scrolled = []" by simp
    with out show ?thesis by simp
  qed
  have c1: "fst (render_rows t (range 0 (fixed_rows t)) ?X1 ?X2) = Inr fixed_lines"
    using a r by simp
  have c2: "fst (render_rows (snd (render_rows t (range 0 (fixed_rows t)) ?X1 ?X2)) ?ys ?X1 ?X2)
      = Inr scrolled"
    using a b q by simp
  have c5: "\<forall>line \<in> set (fixed_lines @ scrolled). line_length line = content_region_width t"
    using wf ws by auto
  from c1 c2 lf lq c5 out len empty show ?thesis by blast
qed

theorem malformed_request_not_empty_witness:
  "table_valid demo_table \<and> (0::int) \<le> 2
   \<and> (\<exists>fixed_lines.
         fst (render_rows demo_table (range 0 (fixed_rows demo_table))
                (6 + fst (scroll_offset demo_table)) (0 + fst (scroll_offset demo_table)))
           = Inr fixed_lines
       \<and> length fixed_lines = 1
       \<and> fst (render_lines demo_table (2, 0) (6, 0)) =
           Inr (map (\<lambda>line. apply_style line (colors_style demo_table)) fixed_lines))"
proof -
  have v: "table_valid demo_table" by code_simp
  have f: "fixed_rows demo_table = 1" by code_simp
  from malformed_request_not_empty [OF v, where ?x1.0 = 6 and ?x2.0 = 0 and ?y1.0 = 2 and ?y2.0 = 0]
  obtain fixed_lines where
      "fst (render_rows demo_table (range 0 (fixed_rows demo_table))
                (6 + fst (scroll_offset demo_table)) (0 + fst (scroll_offset demo_table)))
           = Inr fixed_lines"
    and "length fixed_lines = nat (fixed_rows demo_table)"
    and "(0::int) \<le> 2 \<longrightarrow> fst (render_lines demo_table (2, 0) (6, 0)) =
           Inr (map (\<lambda>line. apply_style line (colors_style demo_table)) fixed_lines)"
    by blast
  with v f show ?thesis by auto
qed

text \<open>
  C8 as stated fails: the request for lines \<open>(2, 0)\<close> and columns \<open>(6, 0)\<close> of the example
  table returns one line, the pinned header row.
\<close>

theorem malformed_request_counterexample:
  "fst (render_lines demo_table (2, 0) (6, 0)) =
     Inr [[Segment '' A '' (Some (Style (Some ''white'') (Some ''black'') (Some True))),
           Segment ''   '' (Some (Style (Some ''white'') (Some ''black'') (Some True)))]]"
  by code_simp

subsection \<open>The frame of a rendering\<close>

lemma rendered_from_model: "model u = model t \<Longrightarrow> rendered_from u = rendered_from t"
  unfolding model_eq_iff by (auto simp: rendered_from_def intro!: ext)

lemma model_fields:
  assumes "model u = model t"
  shows "columns u = columns t \<and> data u = data t \<and> row_count u = row_count t
    \<and> virtual_size u = virtual_size t \<and> show_header u = show_header t
    \<and> fixed_rows u = fixed_rows t \<and> fixed_columns u = fixed_columns t"
  using assms unfolding model_eq_iff by auto

lemma render_cell_entries:
  assumes col: "col \<in> set (columns t)" and e: "(k, v) \<in> set (cell_render_cache (snd (render_cell t y col)))"
  shows "(k, v) \<in> set (cell_render_cache t) \<or> rendered_from t k v"
proof (cases "map_of (cell_render_cache t) (y, index col)")
  case None
  show ?thesis
  proof (cases "index col < length (get_row t y)")
    case True
    have sub: "set (AList.delete (y, index col)
              (take (maxsize - 1) (AList.delete (y, index col) (cell_render_cache t))))
          \<subseteq> set (cell_render_cache t)"
      using set_delete_subset set_take_subset by fast
    from e have "(k, v) = ((y, index col), console_render_lines (get_row t y ! index col) (width col))
        \<or> (k, v) \<in> set (AList.delete (y, index col)
              (take (maxsize - 1) (AList.delete (y, index col) (cell_render_cache t))))"
      by (simp add: render_cell_miss[OF None True])
    then show ?thesis
    proof
      assume "(k, v) = ((y, index col), console_render_lines (get_row t y ! index col) (width col))"
      with col True have "rendered_from t k v" unfolding rendered_from_def by auto
      then show ?thesis ..
    next
      assume "(k, v) \<in> set (AList.delete (y, index col)
              (take (maxsize - 1) (AList.delete (y, index col) (cell_render_cache t))))"
      with sub show ?thesis by blast
    qed
  next
    case False
    with e show ?thesis by (simp add: render_cell_raise[OF None False])
  qed
next
  case (Some rendered)
  then have m: "((y, index col), rendered) \<in> set (cell_render_cache t)" by (rule map_of_SomeD)
  from e have "(k, v) = ((y, index col), rendered)
      \<or> (k, v) \<in> set (AList.delete (y, index col) (cell_render_cache t))"
    by (simp add: render_cell_hit[OF Some])
  with m set_delete_subset[of "(y, index col)" "cell_render_cache t"] show ?thesis by blast
qed

text \<open>
  C10. Rendering is read-only on the table model: after \<^verbatim>\<open>render_lines\<close>, returned or
  raised, the columns, the row data, \<open>row_count\<close>, the virtual size and the reactive
  attributes are what they were, and every entry of the cell render cache was there
  before or is the rendering of a cell of the table.
\<close>

theorem render_lines_frame:
  "columns (snd (render_lines t line_range column_range)) = columns t
   \<and> data (snd (render_lines t line_range column_range)) = data t
   \<and> row_count (snd (render_lines t line_range column_range)) = row_count t
   \<and> virtual_size (snd (render_lines t line_range column_range)) = virtual_size t
   \<and> show_header (snd (render_lines t line_range column_range)) = show_header t
   \<and> fixed_rows (snd (render_lines t line_range column_range)) = fixed_rows t
   \<and> fixed_columns (snd (render_lines t line_range column_range)) = fixed_columns t
   \<and> (\<forall>(k, v) \<in> set (cell_render_cache (snd (render_lines t line_range column_range))).
         (k, v) \<in> set (cell_render_cache t) \<or> rendered_from t k v)"
proof -
  let ?t' = "snd (render_lines t line_range column_range)"
  let ?P = "\<lambda>u. model u = model t
      \<and> (\<forall>(k, v) \<in> set (cell_render_cache u). (k, v) \<in> set (cell_render_cache t) \<or> rendered_from t k v)"
  have step: "?P (snd (render_cell u y col))" if P: "?P u" and col: "col \<in> set (columns u)" for u y col
  proof -
    from P have m: "model u = model t" by simp
    have "(k, v) \<in> set (cell_render_cache t) \<or> rendered_from t k v"
      if kv: "(k, v) \<in> set (cell_render_cache (snd (render_cell u y col)))" for k v
    proof -
      from render_cell_entries[OF col kv]
      have "(k, v) \<in> set (cell_render_cache u) \<or> rendered_from t k v"
        by (simp add: rendered_from_model[OF m])
      with P show ?thesis by blast
    qed
    moreover have "model (snd (render_cell u y col)) = model t"
      using m by (simp add: render_cell_model)
    ultimately show ?thesis by blast
  qed
  have "?P t" by auto
  have P': "?P ?t'"
    by (rule render_lines_invariant[where P = ?P, OF step \<open>?P t\<close>])
  then have "model ?t' = model t" by simp
  from model_fields[OF this] P' show ?thesis by simp
qed

theorem render_lines_frame_witness:
  "((1, 1), [[Segment '' b '' None]]) \<in> set (cell_render_cache (snd (render_lines demo_table (0, 2) (0, 6))))
   \<and> cell_render_cache demo_table = []
   \<and> rendered_from demo_table (1, 1) [[Segment '' b '' None]]
   \<and> data (snd (render_lines demo_table (0, 2) (0, 6))) = data demo_table"
proof -
  have m: "((1, 1), [[Segment '' b '' None]]) \<in> set (cell_render_cache demo_warm)"
    unfolding demo_warm_eq by simp
  have e: "cell_render_cache demo_table = []" by code_simp
  from render_lines_frame [of demo_table "(0, 2)" "(0, 6)"]
  have d: "data demo_warm = data demo_table"
    and c: "\<forall>(k, v) \<in> set (cell_render_cache demo_warm).
              (k, v) \<in> set (cell_render_cache demo_table) \<or> rendered_from demo_table k v"
    unfolding demo_warm_def by blast+
  from c m e have "rendered_from demo_table (1, 1) [[Segment '' b '' None]]" by fastforce
  with m e d show ?thesis unfolding demo_warm_def by simp
qed

subsection \<open>Pinned rows and columns\<close>

lemma styled_cells_Nil [simp]: "styled_cells [] = []"
  by (simp add: styled_cells_def)

lemma styled_cells_Cons [simp]:
  "styled_cells (s # rest) = map (\<lambda>c. (c, seg_style s)) (seg_text s) @ styled_cells rest"
  by (simp add: styled_cells_def)

lemma styled_cells_append [simp]: "styled_cells (a @ b) = styled_cells a @ styled_cells b"
  by (simp add: styled_cells_def)

lemma length_styled_cells [simp]: "length (styled_cells line) = line_length line"
  by (induction line) (simp_all add: line_length_def cell_length_def)

lemma styled_cells_apply_style:
  "styled_cells (apply_style line st) =
     map (\<lambda>(c, s). (c, if style_null st then s
                        else Some (case s of None \<Rightarrow> st | Some own \<Rightarrow> style_add st own)))
       (styled_cells line)"
proof (cases "style_null st")
  case True
  then show ?thesis by (simp add: apply_style_def split_def)
next
  case False
  then show ?thesis by (induction line) (simp_all add: apply_style_def)
qed

lemma styled_cells_truncate_line:
  "done_length \<le> target \<Longrightarrow> target \<le> done_length + line_length line \<Longrightarrow>
     styled_cells (truncate_line line done_length target) = take (target - done_length) (styled_cells line)"
proof (induction line done_length target rule: truncate_line.induct)
  case (1 done_length target)
  then show ?case by simp
next
  case (2 s rest done_length target)
  show ?case
  proof (cases "done_length + cell_length s < target")
    case True
    with 2 have "styled_cells (truncate_line rest (done_length + cell_length s) target)
        = take (target - (done_length + cell_length s)) (styled_cells rest)"
      by (simp add: line_length_def)
    with True show ?thesis
      by (simp add: cell_length_def)
  next
    case False
    then show ?thesis
      by (simp add: cell_length_def set_cell_size_def take_map)
  qed
qed

lemma styled_cells_adjust_line_length:
  "styled_cells (adjust_line_length line target) =
     take target (styled_cells line @ replicate (target - line_length line) (CHR '' '', None))"
proof -
  consider "line_length line < target" | "line_length line > target" | "line_length line = target"
    by linarith
  then show ?thesis
  proof cases
    case 1
    then show ?thesis by (simp add: adjust_line_length_def)
  next
    case 2
    then show ?thesis by (simp add: adjust_line_length_def styled_cells_truncate_line)
  next
    case 3
    then show ?thesis by (simp add: adjust_line_length_def)
  qed
qed

lemma take_take_append:
  assumes "n \<le> length xs"
  shows "take n (take w (xs @ ys)) = take n (take w xs)"
proof -
  have "take n (take w (xs @ ys)) = take (min n w) (xs @ ys)" by (rule take_take)
  also have "\<dots> = take (min n w) xs" using assms by simp
  also have "\<dots> = take n (take w xs)" by (rule take_take [symmetric])
  finally show ?thesis .
qed

lemma take_adjusted_prefix:
  assumes "n \<le> line_length fixed"
  shows "take n (styled_cells (adjust_line_length (fixed @ rest) target))
           = take n (take target (styled_cells fixed))"
  unfolding styled_cells_adjust_line_length styled_cells_append append_assoc
  by (rule take_take_append) (simp add: assms)

lemma compose_line_fixed_prefix:
  assumes "n \<le> line_length (concat (slice_to cell_segments (fixed_columns t)))"
  shows "take n (styled_cells (compose_line t y x1 x2 cell_segments))
           = take n (styled_cells (compose_line t y x1' x2' cell_segments))"
proof -
  let ?fixed = "apply_style (concat (slice_to cell_segments (fixed_columns t))) (header_style t)"
  from assms have n: "n \<le> line_length ?fixed" by simp
  show ?thesis
    by (simp add: compose_line_def Let_def styled_cells_apply_style take_map take_adjusted_prefix[OF n])
qed

lemma render_cells_model: "model (snd (render_cells t y cs acc)) = model t"
proof -
  let ?R = "\<lambda>a b. model a = model t \<and> b = a"
  have "fst (render_cells t y cs acc) = fst (render_cells t y cs acc)
      \<and> ?R (snd (render_cells t y cs acc)) (snd (render_cells t y cs acc))"
    by (rule render_cells_rel[where R = ?R and cols = cs]) (simp_all add: render_cell_model)
  then show ?thesis by simp
qed

lemma render_line_fixed_prefix:
  assumes "fst (render_cells t y (columns t) []) = Inr cell_segments"
    and "n \<le> line_length (concat (slice_to cell_segments (fixed_columns t)))"
  shows "\<exists>line line'. fst (render_line t y x1 x2) = Inr line \<and> fst (render_line t y x1' x2') = Inr line'
           \<and> take n (styled_cells line) = take n (styled_cells line')"
proof -
  obtain r t' where a: "render_cells t y (columns t) [] = (r, t')"
    by (cases "render_cells t y (columns t) []")
  with assms(1) have r: "r = Inr cell_segments" by simp
  from a have m: "model t' = model t" using render_cells_model[of t y "columns t" "[]"] by simp
  from m[symmetric] obtain c where t': "t' = t\<lparr>cell_render_cache := c\<rparr>"
    unfolding model_eq_iff by blast
  have fc: "fixed_columns t' = fixed_columns t" unfolding t' by simp
  from assms(2) fc have "n \<le> line_length (concat (slice_to cell_segments (fixed_columns t')))" by simp
  from compose_line_fixed_prefix[OF this, of y x1 x2 x1' x2'] a r show ?thesis
    by (simp add: render_line_def)
qed

lemma get_row_scroll [simp]: "get_row (t\<lparr>scroll_offset := s\<rparr>) y = get_row t y"
  by (simp add: get_row_def split: option.splits)

lemma compose_line_scroll [simp]: "compose_line (t\<lparr>scroll_offset := s\<rparr>) = compose_line t"
  by (intro ext) (simp add: compose_line_def Let_def)

lemma render_cell_scroll:
  "render_cell (t\<lparr>scroll_offset := s\<rparr>) y col =
     (fst (render_cell t y col), (snd (render_cell t y col))\<lparr>scroll_offset := s\<rparr>)"
  by (simp add: render_cell_def cache_read_def Let_def split: sum.splits prod.splits)

lemma render_rows_scroll:
  "fst (render_rows (t\<lparr>scroll_offset := s\<rparr>) ys x1 x2) = fst (render_rows t ys x1 x2)"
proof -
  let ?R = "\<lambda>a b. b = a\<lparr>scroll_offset := s\<rparr>"
  have "fst (render_rows t ys x1 x2) = fst (render_rows (t\<lparr>scroll_offset := s\<rparr>) ys x1 x2)
      \<and> ?R (snd (render_rows t ys x1 x2)) (snd (render_rows (t\<lparr>scroll_offset := s\<rparr>) ys x1 x2))"
    by (rule render_rows_rel[where R = ?R]) (simp_all add: render_cell_scroll)
  then show ?thesis by simp
qed

lemma render_lines_fixed_part:
  assumes "fst (render_lines t (y1, y2) (x1, x2)) = Inr ls"
  shows "\<exists>fixed_lines.
           fst (render_rows t (range 0 (fixed_rows t))
                  (x1 + fst (scroll_offset t)) (x2 + fst (scroll_offset t))) = Inr fixed_lines
           \<and> take (nat (fixed_rows t)) ls = map (\<lambda>line. apply_style line (colors_style t)) fixed_lines"
proof -
  let ?X1 = "x1 + fst (scroll_offset t)" and ?X2 = "x2 + fst (scroll_offset t)"
  let ?ys = "range (y1 + snd (scroll_offset t)) (y2 + snd (scroll_offset t))"
  obtain r t1 where a: "render_rows t (range 0 (fixed_rows t)) ?X1 ?X2 = (r, t1)"
    by (cases "render_rows t (range 0 (fixed_rows t)) ?X1 ?X2")
  obtain q t2 where b: "render_rows t1 ?ys ?X1 ?X2 = (q, t2)" by (cases "render_rows t1 ?ys ?X1 ?X2")
  from assms a b obtain fixed_lines scrolled where r: "r = Inr fixed_lines" and q: "q = Inr scrolled"
    and ls: "ls = map (\<lambda>line. apply_style line (colors_style t2))
                (if fixed_lines \<noteq> [] then fixed_lines @ slice_from scrolled (fixed_rows t2) else scrolled)"
    unfolding render_lines_unfold by (cases r; cases q) auto
  from a r have lf: "length fixed_lines = nat (fixed_rows t)"
    using render_rows_length[of t "range 0 (fixed_rows t)" ?X1 ?X2 fixed_lines] by simp
  have "model t2 = model t"
    using a b render_rows_model[of t "range 0 (fixed_rows t)" ?X1 ?X2] render_rows_model[of t1 ?ys ?X1 ?X2]
    by simp
  then have cs: "colors_style t2 = colors_style t" by (rule model_view(6))
  have "take (nat (fixed_rows t)) ls = map (\<lambda>line. apply_style line (colors_style t)) fixed_lines"
  proof (cases "fixed_lines = []")
    case True
    with lf ls show ?thesis by simp
  next
    case False
    with lf ls cs show ?thesis by (simp add: take_map)
  qed
  with a r show ?thesis by simp
qed

lemma fixed_rows_scroll_invariance:
  assumes "fst (render_lines (t\<lparr>scroll_offset := (sx, sy)\<rparr>) (y1, y2) (x1, x2)) = Inr ls"
    and "fst (render_lines (t\<lparr>scroll_offset := (sx, sy')\<rparr>) (y1', y2') (x1, x2)) = Inr ls'"
  shows "take (nat (fixed_rows t)) ls = take (nat (fixed_rows t)) ls'"
  using render_lines_fixed_part[OF assms(1)] render_lines_fixed_part[OF assms(2)]
  by (auto simp: render_rows_scroll)

text \<open>
  C5, amended. For every table state, the lines of the rows \<open>[0, fixed_rows)\<close> are the
  same at every vertical scroll offset and for every requested line range as at vertical
  offset zero, the horizontal window being the same; and the fixed column prefix of a
  line, the first cells up to the width of the first \<open>fixed_columns\<close> rendered cells,
  depends only on the row and never on the horizontal window endpoints. The rest of a
  pinned row does scroll horizontally.
\<close>

theorem fixed_rows_and_columns_invariance:
  "(fst (render_lines (t\<lparr>scroll_offset := (sx, sy)\<rparr>) (y1, y2) (x1, x2)) = Inr ls
      \<and> fst (render_lines (t\<lparr>scroll_offset := (sx, 0)\<rparr>) (y1', y2') (x1, x2)) = Inr ls'
    \<longrightarrow> take (nat (fixed_rows t)) ls = take (nat (fixed_rows t)) ls')
   \<and> (fst (render_cells t y (columns t) []) = Inr cell_segments
      \<and> n \<le> line_length (concat (slice_to cell_segments (fixed_columns t)))
    \<longrightarrow> (\<exists>line line'. fst (render_line t y c1 c2) = Inr line
            \<and> fst (render_line t y c1' c2') = Inr line'
            \<and> take n (styled_cells line) = take n (styled_cells line')))"
  using fixed_rows_scroll_invariance[where t = t and sx = sx and sy = sy and sy' = 0]
    render_line_fixed_prefix[where t = t and y = y and cell_segments = cell_segments and n = n]
  by blast

theorem fixed_rows_and_columns_invariance_witness:
  "fst (render_lines (demo_table\<lparr>scroll_offset := (0, 1)\<rparr>) (0, 1) (0, 6)) =
     Inr [[Segment '' A '' (Some (Style (Some ''white'') (Some ''black'') (Some True))),
           Segment '' B '' (Some (Style (Some ''white'') (Some ''black'') (Some True)))]]
   \<and> fst (render_lines (demo_table\<lparr>scroll_offset := (0, 0)\<rparr>) (0, 2) (0, 6)) =
     Inr [[Segment '' A '' (Some (Style (Some ''white'') (Some ''black'') (Some True))),
           Segment '' B '' (Some (Style (Some ''white'') (Some ''black'') (Some True)))],
          [Segment '' a '' (Some (Style (Some ''white'') (Some ''black'') (Some True))),
           Segment '' b '' (Some (Style (Some ''white'') (Some ''black'') None))]]
   \<and> fst (render_cells demo_table 1 (columns demo_table) []) =
     Inr [[Segment '' a '' None], [Segment '' b '' None]]
   \<and> (\<exists>line line'. fst (render_line demo_table 1 0 6) = Inr line
         \<and> fst (render_line demo_table 1 3 9) = Inr line'
         \<and> take 3 (styled_cells line) = take 3 (styled_cells line'))"
proof -
  have a: "fst (render_lines (demo_table\<lparr>scroll_offset := (0, 1)\<rparr>) (0, 1) (0, 6)) =
     Inr [[Segment '' A '' (Some (Style (Some ''white'') (Some ''black'') (Some True))),
           Segment '' B '' (Some (Style (Some ''white'') (Some ''black'') (Some True)))]]"
    by code_simp
  have b: "fst (render_lines (demo_table\<lparr>scroll_offset := (0, 0)\<rparr>) (0, 2) (0, 6)) =
     Inr [[Segment '' A '' (Some (Style (Some ''white'') (Some ''black'') (Some True))),
           Segment '' B '' (Some (Style (Some ''white'') (Some ''black'') (Some True)))],
          [Segment '' a '' (Some (Style (Some ''white'') (Some ''black'') (Some True))),
           Segment '' b '' (Some (Style (Some ''white'') (Some ''black'') None))]]"
    by code_simp
  have c: "fst (render_cells demo_table 1 (columns demo_table) []) =
     Inr [[Segment '' a '' None], [Segment '' b '' None]]"
    by code_simp
  have d: "3 \<le> line_length (concat (slice_to [[Segment '' a '' None], [Segment '' b '' None]]
                (fixed_columns demo_table)))"
    by code_simp
  show ?thesis
    using a b c d
      fixed_rows_and_columns_invariance [where t = demo_table and sx = 0 and sy = 1
        and ?y1.0 = 0 and ?y2.0 = 1 and ?x1.0 = 0 and ?x2.0 = 6 and y1' = 0 and y2' = 2
        and y = 1 and n = 3 and ?c1.0 = 0 and ?c2.0 = 6 and c1' = 3 and c2' = 9
        and cell_segments = "[[Segment '' a '' None], [Segment '' b '' None]]"]
    by blast
qed

text \<open>
  C5 as stated fails: the pinned row 0 of the example table is not the same at the
  horizontal scroll offsets 3 and 0. Its fixed first column stays, the rest scrolls.
\<close>

theorem fixed_rows_scroll_counterexample:
  "fst (render_lines (demo_table\<lparr>scroll_offset := (3, 0)\<rparr>) (0, 1) (0, 6)) =
     Inr [[Segment '' A '' (Some (Style (Some ''white'') (Some ''black'') (Some True))),
           Segment ''   '' (Some (Style (Some ''white'') (Some ''black'') (Some True)))]]
   \<and> fst (render_lines (demo_table\<lparr>scroll_offset := (0, 0)\<rparr>) (0, 1) (0, 6)) =
     Inr [[Segment '' A '' (Some (Style (Some ''white'') (Some ''black'') (Some True))),
           Segment '' B '' (Some (Style (Some ''white'') (Some ''black'') (Some True)))]]"
  by code_simp

subsection \<open>Mutations and the cache\<close>

text \<open>
  C3 as stated fails: \<^verbatim>\<open>add_row\<close> evicts nothing. Display row 1 of the two-column table is
  rendered through the blank fallback; then the row \<open>(a, b)\<close> is added; the next rendering
  still shows the blank cells, while a rendering from an empty cache shows the row.
\<close>

theorem stale_cache_counterexample:
  "get_row demo_stale 1 = [''a'', ''b'']
   \<and> fst (render_lines demo_stale (0, 2) (0, 6)) =
     Inr [[Segment '' A '' (Some (Style (Some ''white'') (Some ''black'') (Some True))),
           Segment '' B '' (Some (Style (Some ''white'') (Some ''black'') (Some True)))],
          [Segment ''   '' (Some (Style (Some ''white'') (Some ''black'') (Some True))),
           Segment ''   '' (Some (Style (Some ''white'') (Some ''black'') None))]]
   \<and> fst (render_lines (demo_stale\<lparr>cell_render_cache := []\<rparr>) (0, 2) (0, 6)) =
     Inr [[Segment '' A '' (Some (Style (Some ''white'') (Some ''black'') (Some True))),
           Segment '' B '' (Some (Style (Some ''white'') (Some ''black'') (Some True)))],
          [Segment '' a '' (Some (Style (Some ''white'') (Some ''black'') (Some True))),
           Segment '' b '' (Some (Style (Some ''white'') (Some ''black'') None))]]"
  by code_simp

text \<open>
  C3, amended: no mutation of the table evicts anything. \<^verbatim>\<open>add_row\<close> and \<^verbatim>\<open>add_column\<close>
  leave the cell render cache as it is, and \<^verbatim>\<open>_render_cell\<close> returns the cached entry
  whenever its key is present, whatever the cell value and the column width are now.
\<close>

theorem mutations_keep_cache:
  "cell_render_cache (add_row t cells) = cell_render_cache t
   \<and> cell_render_cache (add_column t text_label w) = cell_render_cache t
   \<and> (map_of (cell_render_cache t) (y, index col) = Some rendered
        \<longrightarrow> fst (render_cell t y col) = Inr rendered)"
  by (simp add: table_ops render_cell_hit)

theorem mutations_keep_cache_witness:
  "map_of (cell_render_cache demo_stale) (1, index \<lparr>label = ''A'', width = 3, visible = False, index = 0\<rparr>)
     = Some [[Segment ''   '' None]]
   \<and> fst (render_cell demo_stale 1 \<lparr>label = ''A'', width = 3, visible = False, index = 0\<rparr>)
     = Inr [[Segment ''   '' None]]"
proof -
  have m: "map_of (cell_render_cache demo_stale)
             (1, index \<lparr>label = ''A'', width = 3, visible = False, index = 0\<rparr>)
           = Some [[Segment ''   '' None]]"
    by code_simp
  show ?thesis
    using m mutations_keep_cache [of demo_stale "[]" "[]" 0 1
        "\<lparr>label = ''A'', width = 3, visible = False, index = 0\<rparr>" "[[Segment ''   '' None]]"]
    by simp
qed

subsection \<open>Well-built tables\<close>

lemma set_update_subset: "set (AList.update k v al) \<subseteq> insert (k, v) (set al)"
  by (induction al) auto

lemma well_built_valid: "well_built t \<Longrightarrow> table_valid t"
proof (induction rule: well_built.induct)
  case (wb_init offset region_width hstyle cstyle)
  show ?case by (simp add: table_valid_def init_def)
next
  case (wb_add_column t text_label w)
  then show ?case by (auto simp: table_valid_def table_ops less_Suc_eq)
next
  case (wb_add_row t cells)
  have "set (AList.update (row_count t) cells (data t)) \<subseteq> insert (row_count t, cells) (set (data t))"
    by (rule set_update_subset)
  with wb_add_row show ?case by (auto simp: table_valid_def table_ops)
next
  case (wb_show_header t b)
  then show ?case by (simp add: table_valid_def)
next
  case (wb_render t line_range column_range)
  then show ?case using render_lines_ok by blast
qed

lemma well_built_never_raises:
  "well_built t \<Longrightarrow> \<exists>ls. fst (render_lines t line_range column_range) = Inr ls"
  using render_lines_ok [OF well_built_valid] by blast

text \<open>
  C9. No rendering of a well-built table raises (\<open>well_built_never_raises\<close>), and with
  the header shown a row beyond \<open>row_count\<close> has no stored row and is blank. With the
  header hidden \<^verbatim>\<open>get_row\<close> reads key 0 for every display row, so the rows beyond
  \<open>row_count\<close> are copies of row 0: the example table with the header hidden has one row,
  and its display row 4 is rendered as \<open>(a, b)\<close>, after the pinned row 0.
\<close>

theorem out_of_range_row_not_blank:
  "well_built demo_headless \<and> row_count demo_headless = 1
   \<and> fst (render_lines demo_headless (3, 5) (0, 6)) =
     Inr [[Segment '' a '' (Some (Style (Some ''white'') (Some ''black'') (Some True))),
           Segment '' b '' (Some (Style (Some ''white'') (Some ''black'') None))],
          [Segment '' a '' (Some (Style (Some ''white'') (Some ''black'') (Some True))),
           Segment '' b '' (Some (Style (Some ''white'') (Some ''black'') None))]]"
proof -
  have "well_built demo_headless"
    unfolding demo_headless_def
    by (intro well_built.intros) (simp_all add: table_ops init_def)
  moreover have "row_count demo_headless = 1" by code_simp
  moreover have "fst (render_lines demo_headless (3, 5) (0, 6)) =
     Inr [[Segment '' a '' (Some (Style (Some ''white'') (Some ''black'') (Some True))),
           Segment '' b '' (Some (Style (Some ''white'') (Some ''black'') None))],
          [Segment '' a '' (Some (Style (Some ''white'') (Some ''black'') (Some True))),
           Segment '' b '' (Some (Style (Some ''white'') (Some ''black'') None))]]"
    by code_simp
  ultimately show ?thesis by simp
qed

end
